theory Spec2Isabelle
  imports Main
begin

section \<open>Python values, exceptions and dictionaries\<close>

text \<open>
  The exceptions that the modelled code can raise. \<open>TaskCancelledException\<close> is the
  class declared in the source; \<open>KeyError\<close> comes from dictionary subscripts,
  \<open>OverflowError\<close> from float conversions, \<open>NameError\<close> from reading a variable
  that is not bound; \<open>OtherException\<close> stands for any other subclass of
  \<open>Exception\<close>, and \<open>SystemExit\<close> for the classes that derive from
  \<open>BaseException\<close> only, which an \<open>except Exception\<close> clause does not catch.
\<close>

datatype py_exception =
    TaskCancelledException
  | KeyError
  | OverflowError
  | NameError
  | OtherException string
  | SystemExit

fun is_Exception :: "py_exception \<Rightarrow> bool" where
  "is_Exception SystemExit = False"
| "is_Exception _ = True"

text \<open>
  A cell value is \<open>None\<close>, an integer or a string. Strings are byte lists (UTF-8).
  Equality of these values is Python's \<open>==\<close> on them, which is what dictionary
  membership uses.
\<close>

datatype cell_value = PyNone | PyInt int | PyStr string

text \<open>
  A Python \<open>dict\<close> keeps its items in insertion order: it is modelled as an association
  list with distinct keys. \<open>dict_set\<close> is \<open>d[k] = v\<close>: an existing key keeps its
  position, a new key goes to the end.
\<close>

type_synonym ('k, 'v) dict = "('k \<times> 'v) list"

fun dict_get :: "('k, 'v) dict \<Rightarrow> 'k \<Rightarrow> 'v option" where
  "dict_get [] k = None"
| "dict_get ((k', v) # d) k = (if k' = k then Some v else dict_get d k)"

fun dict_set :: "('k, 'v) dict \<Rightarrow> 'k \<Rightarrow> 'v \<Rightarrow> ('k, 'v) dict" where
  "dict_set [] k v = [(k, v)]"
| "dict_set ((k', v') # d) k v = (if k' = k then (k, v) # d else (k', v') # dict_set d k v)"

definition dict_has :: "('k, 'v) dict \<Rightarrow> 'k \<Rightarrow> bool" where
  "dict_has d k = (dict_get d k \<noteq> None)"

definition dict_keys :: "('k, 'v) dict \<Rightarrow> 'k list" where
  "dict_keys d = map fst d"

text \<open>A \<open>defaultdict(list)\<close> read at a key: the empty list when the key is absent.\<close>

definition dict_list :: "('k, 'v list) dict \<Rightarrow> 'k \<Rightarrow> 'v list" where
  "dict_list d k = (case dict_get d k of None \<Rightarrow> [] | Some vs \<Rightarrow> vs)"

section \<open>Progress percentage\<close>

text \<open>
  \<open>TaskProgress.percentage\<close> computes \<open>min(100, int((current / total) * 100))\<close> in
  double-precision floating point. A finite double is modelled as \<open>Double m e\<close>, the
  number \<open>m * 2 ^ e\<close>. Python's \<open>int / int\<close> and \<open>float * int\<close> both return the
  double nearest to the exact result, ties to the even significand (53 bits);
  \<open>round_ratio p q\<close> is that rounding of \<open>p / q\<close> for \<open>q > 0\<close>. A quotient beyond the
  double range raises \<open>OverflowError\<close>; a product beyond it is infinite and \<open>int\<close>
  raises \<open>OverflowError\<close> on it. Quotients below the normal range lose
  precision in Python, which the model ignores: their product with 100 is below 1
  either way and truncates to 0.
\<close>

datatype double = Double int int

function bit_length :: "int \<Rightarrow> int" where
  "bit_length n = (if n \<le> 0 then 0 else bit_length (n div 2) + 1)"
  by pat_completeness auto
termination
  by (relation "measure nat") auto

declare bit_length.simps [simp del]

definition round_half_even :: "int \<Rightarrow> int \<Rightarrow> int" where
  "round_half_even num den =
     (let f = num div den; r = num mod den
      in if 2 * r < den then f else if den < 2 * r then f + 1
         else if even f then f else f + 1)"

definition round_ratio :: "int \<Rightarrow> int \<Rightarrow> double" where
  "round_ratio p q =
     (if p = 0 then Double 0 0
      else let a = \<bar>p\<bar>;
               k = bit_length a - bit_length q;
               b = (if (if 0 \<le> k then 2 ^ nat k * q \<le> a else q \<le> a * 2 ^ nat (- k))
                    then k else k - 1);
               e = b - 52;
               m = (if 0 \<le> e then round_half_even a (q * 2 ^ nat e)
                    else round_half_even (a * 2 ^ nat (- e)) q)
           in Double (sgn p * m) e)"

definition double_limit :: int where
  "double_limit = 2 ^ 1024"

fun overflows :: "double \<Rightarrow> bool" where
  "overflows (Double m e) =
     (if 0 \<le> e then double_limit \<le> \<bar>m\<bar> * 2 ^ nat e
      else double_limit * 2 ^ nat (- e) \<le> \<bar>m\<bar>)"

fun fmul_int :: "double \<Rightarrow> int \<Rightarrow> double" where
  "fmul_int (Double m e) n =
     (if 0 \<le> e then round_ratio (m * n * 2 ^ nat e) 1
      else round_ratio (m * n) (2 ^ nat (- e)))"

text \<open>\<open>int(x)\<close> truncates toward zero; \<open>math.floor(x)\<close> rounds down.\<close>

fun py_int :: "double \<Rightarrow> int" where
  "py_int (Double m e) =
     (if 0 \<le> e then m * 2 ^ nat e else sgn m * (\<bar>m\<bar> div 2 ^ nat (- e)))"

fun py_floor :: "double \<Rightarrow> int" where
  "py_floor (Double m e) = (if 0 \<le> e then m * 2 ^ nat e else m div 2 ^ nat (- e))"

definition percentage :: "int \<Rightarrow> int \<Rightarrow> py_exception + int" where
  "percentage cur tot =
     (if tot \<le> 0 then Inr 0
      else let q = round_ratio cur tot
           in if overflows q then Inl OverflowError
              else let y = fmul_int q 100
                   in if overflows y then Inl OverflowError
                      else Inr (min 100 (py_int y)))"

fun mantissa :: "double \<Rightarrow> int" where
  "mantissa (Double m e) = m"

fun negate :: "double \<Rightarrow> double" where
  "negate (Double m e) = Double (- m) e"

text \<open>The floating-point value of \<open>(current / total) * 100\<close>, for \<open>total > 0\<close>.\<close>

definition float_product :: "int \<Rightarrow> int \<Rightarrow> double" where
  "float_product cur tot = fmul_int (round_ratio cur tot) 100"

definition clamp :: "int \<Rightarrow> int \<Rightarrow> int \<Rightarrow> int" where
  "clamp lo hi x = max lo (min hi x)"

text \<open>
  The formula as the specification words it, in exact arithmetic:
  \<open>clamp(0, 100, floor(current / total * 100))\<close>, and 0 when \<open>total \<le> 0\<close>.
\<close>

definition spec_percentage :: "int \<Rightarrow> int \<Rightarrow> int" where
  "spec_percentage cur tot = (if tot \<le> 0 then 0 else clamp 0 100 ((cur * 100) div tot))"

section \<open>Task runner\<close>

text \<open>
  \<open>AsyncTaskExecutor.execute\<close> runs \<open>run_task\<close> on a worker thread. The task function
  either returns a result or raises; \<open>cancelled\<close> is what \<open>is_cancelled()\<close> answers
  when the task function has returned. The callbacks are optional arguments: each
  flag tells whether the caller supplied it.

  \<open>run_task\<close> does not call a callback itself. It hands \<open>root.after\<close> a callable:
  \<open>lambda: on_complete(result)\<close>, the function \<open>on_cancelled\<close>, or
  \<open>lambda: on_error(e)\<close>. The two lambdas read the variables \<open>result\<close> and \<open>e\<close>
  of \<open>run_task\<close> at the time they are called. \<open>result\<close> is bound by the assignment
  in the \<open>try\<close> body and stays bound. \<open>e\<close> is the target of
  \<open>except Exception as e\<close>, which Python unbinds when the \<open>except\<close> clause is
  left. \<open>run_task\<close> therefore answers the callables it has scheduled together with
  its variables as they are when it ends.
\<close>

datatype 'r task_outcome = Returns 'r | Raises py_exception

datatype 'r terminal_callback = OnComplete 'r | OnError py_exception | OnCancelled

datatype scheduled = CompleteLambda | CancelledFunction | ErrorLambda

record callbacks =
  on_complete :: bool
  on_error :: bool
  on_cancelled :: bool

record 'r task_variables =
  result_var :: "'r option"
  e_var :: "py_exception option"

fun run_task ::
  "callbacks \<Rightarrow> 'r task_outcome \<Rightarrow> bool \<Rightarrow> scheduled list \<times> 'r task_variables" where
  "run_task cbs (Returns result) cancelled =
     ((if \<not> cancelled then (if on_complete cbs then [CompleteLambda] else []) else []),
      \<lparr>result_var = Some result, e_var = None\<rparr>)"
| "run_task cbs (Raises TaskCancelledException) cancelled =
     ((if on_cancelled cbs then [CancelledFunction] else []),
      \<lparr>result_var = None, e_var = None\<rparr>)"
| "run_task cbs (Raises e) cancelled =
     ((if is_Exception e then (if on_error cbs then [ErrorLambda] else []) else []),
      \<lparr>result_var = None, e_var = None\<rparr>)"

text \<open>
  The event loop of the controlling thread calls a scheduled callable later, when the
  worker has left the clause that scheduled it (the call of \<open>root.after\<close> is the
  last statement of each clause). Calling the callable either calls the user's callback
  or raises \<open>NameError\<close> before the callback is reached. \<open>fired\<close> lists the
  callbacks that are called.
\<close>

fun call_scheduled :: "'r task_variables \<Rightarrow> scheduled \<Rightarrow> py_exception + 'r terminal_callback" where
  "call_scheduled vars CompleteLambda =
     (case result_var vars of Some result \<Rightarrow> Inr (OnComplete result) | None \<Rightarrow> Inl NameError)"
| "call_scheduled vars CancelledFunction = Inr OnCancelled"
| "call_scheduled vars ErrorLambda =
     (case e_var vars of Some e \<Rightarrow> Inr (OnError e) | None \<Rightarrow> Inl NameError)"

fun called :: "py_exception + 'r terminal_callback \<Rightarrow> 'r terminal_callback list" where
  "called (Inr cb) = [cb]"
| "called (Inl e) = []"

definition fired :: "callbacks \<Rightarrow> 'r task_outcome \<Rightarrow> bool \<Rightarrow> 'r terminal_callback list" where
  "fired cbs oc cancelled =
     (case run_task cbs oc cancelled of
        (callables, vars) \<Rightarrow> concat (map (\<lambda>c. called (call_scheduled vars c)) callables))"

section \<open>Sheets and header names\<close>

text \<open>
  A worksheet as the spreadsheet library presents it: the largest row and column index
  in use and the value of every cell, rows and columns counted from 1. A cell that holds
  nothing reads as \<open>None\<close>. Reading cells inside these bounds does not change them, so a
  source sheet is an immutable value. Cell styles and column widths are copied by the
  source next to the values; they do not influence where a value goes and are left out.
\<close>

record sheet =
  max_row :: nat
  max_column :: nat
  cell :: "nat \<Rightarrow> nat \<Rightarrow> cell_value"

definition sheet_of_rows :: "cell_value list list \<Rightarrow> sheet" where
  "sheet_of_rows rows =
     \<lparr>max_row = max 1 (length rows),
      max_column = max 1 (foldr (\<lambda>row w. max (length row) w) rows 0),
      cell = (\<lambda>r c. if 1 \<le> r \<and> r \<le> length rows \<and> 1 \<le> c \<and> c \<le> length (rows ! (r - 1))
                     then rows ! (r - 1) ! (c - 1) else PyNone)\<rparr>"

text \<open>\<open>str\<close> of a value: decimal digits for an integer, the string itself for a string.\<close>

definition digit_char :: "nat \<Rightarrow> char" where
  "digit_char d = ''0123456789'' ! d"

fun str_nat :: "nat \<Rightarrow> string" where
  "str_nat n = (if n < 10 then [digit_char n] else str_nat (n div 10) @ [digit_char (n mod 10)])"

declare str_nat.simps [simp del]

definition str_int :: "int \<Rightarrow> string" where
  "str_int i = (if i < 0 then CHR ''-'' # str_nat (nat (- i)) else str_nat (nat i))"

fun py_str :: "cell_value \<Rightarrow> string" where
  "py_str PyNone = ''None''"
| "py_str (PyInt i) = str_int i"
| "py_str (PyStr s) = s"

text \<open>
  The prefix of a synthetic column name is the single character U+5217, three bytes in
  UTF-8. \<open>header_name\<close> is the expression
  \<open>str(cell.value) if cell.value is not None else f"<U+5217>{col_idx}"\<close>, which
  \<open>load_file_info\<close>, \<open>extract_columns\<close> and \<open>merge_multiple_files\<close> all use.
\<close>

definition column_prefix :: string where
  "column_prefix = [CHR 0xE5, CHR 0x88, CHR 0x97]"

definition header_name :: "nat \<Rightarrow> cell_value \<Rightarrow> string" where
  "header_name col_idx v = (if v \<noteq> PyNone then py_str v else column_prefix @ str_nat col_idx)"

text \<open>\<open>enumerate(sheet[1], start=1)\<close>: the cells of row 1 in columns 1 to \<open>max_column\<close>.\<close>

definition header_row :: "sheet \<Rightarrow> (nat \<times> cell_value) list" where
  "header_row sh = map (\<lambda>c. (c, cell sh 1 c)) [1..<Suc (max_column sh)]"

record column_info =
  name :: string
  index :: nat
  file_index :: nat

text \<open>
  The column catalogue that \<open>load_file_info\<close> builds (the column letter and the file
  name, both derived from the index and the path, are left out).
\<close>

definition load_columns :: "sheet \<Rightarrow> nat \<Rightarrow> column_info list" where
  "load_columns sh fi =
     (if max_row sh > 0
      then map (\<lambda>(col_idx, v). \<lparr>name = header_name col_idx v, index = col_idx, file_index = fi\<rparr>)
             (header_row sh)
      else [])"

section \<open>Copying state, cancellation and results\<close>

text \<open>
  The cancellation token is set by another thread; the operation sees it only through
  \<open>raise_if_cancelled\<close>. A token is modelled by what its flag reads at the n-th poll of
  the operation, n counted from 0.

  The state threaded through the copying loops: every assignment
  \<open>output_cell.value = source_cell.value\<close> is recorded in order as source position
  (file, row, column), target position (row, column) and the value copied. The
  in-memory output sheet is what the last assignment to each position left there.
\<close>

type_synonym cancellation_token = "nat \<Rightarrow> bool"

type_synonym cell_copy = "(nat \<times> nat \<times> nat) \<times> (nat \<times> nat) \<times> cell_value"

record copy_state =
  copies :: "cell_copy list"
  output_col_idx :: nat
  processed_cols :: nat
  polls :: nat
  progress :: "(nat \<times> nat) list"

definition initial_state :: copy_state where
  "initial_state =
     \<lparr>copies = [], output_col_idx = 1, processed_cols = 0, polls = 0, progress = []\<rparr>"

type_synonym out_sheet = "nat \<times> nat \<Rightarrow> cell_value option"

fun sheet_of_copies :: "cell_copy list \<Rightarrow> out_sheet" where
  "sheet_of_copies [] = (\<lambda>pos. None)"
| "sheet_of_copies ((src, dst, v) # cs) =
     (\<lambda>pos. case sheet_of_copies cs pos of
               Some w \<Rightarrow> Some w
             | None \<Rightarrow> (if pos = dst then Some v else None))"

text \<open>
  What an operation leaves behind: the path it returned or the exception it raised, the
  workbook saved at the output path (if \<open>save\<close> was reached), the source workbooks
  (by position in the list of files) on which \<open>close()\<close> has not been called when
  the operation ends, and the last copying state. The extractor and the merge load
  their sources with \<open>read_only=False\<close>; what the spreadsheet library itself keeps
  open after loading is not part of the source and is not modelled.
\<close>

record run_result =
  outcome :: "py_exception + string"
  saved_file :: "out_sheet option"
  unclosed_workbooks :: "nat list"
  final_state :: copy_state

section \<open>Column extractor\<close>

definition extract_column_map :: "sheet \<Rightarrow> string list \<Rightarrow> (string, nat) dict" where
  "extract_column_map sh selected_columns =
     foldl (\<lambda>column_map (col_idx, v).
              let col_name = header_name col_idx v
              in if col_name \<in> set selected_columns then dict_set column_map col_name col_idx
                 else column_map)
       [] (header_row sh)"

fun copy_rows ::
  "cancellation_token \<Rightarrow> sheet \<Rightarrow> nat \<Rightarrow> nat \<Rightarrow> nat list \<Rightarrow> copy_state
     \<Rightarrow> (py_exception \<times> copy_state) + copy_state" where
  "copy_rows tok sh source_col_idx n_selected [] st = Inr st"
| "copy_rows tok sh source_col_idx n_selected (row_idx # rows) st =
     (if tok (polls st) then Inl (TaskCancelledException, st\<lparr>polls := Suc (polls st)\<rparr>)
      else let st1 = st\<lparr>polls := Suc (polls st),
                       copies := copies st @
                         [((0, row_idx, source_col_idx), (row_idx, output_col_idx st),
                           cell sh row_idx source_col_idx)]\<rparr>;
               st2 = (if row_idx mod 100 = 0
                      then st1\<lparr>progress := progress st1 @
                             [(row_idx * output_col_idx st1, max_row sh * n_selected)]\<rparr>
                      else st1)
           in copy_rows tok sh source_col_idx n_selected rows st2)"

fun extract_loop ::
  "cancellation_token \<Rightarrow> sheet \<Rightarrow> (string, nat) dict \<Rightarrow> nat \<Rightarrow> string list \<Rightarrow> copy_state
     \<Rightarrow> (py_exception \<times> copy_state) + copy_state" where
  "extract_loop tok sh column_map n_selected [] st = Inr st"
| "extract_loop tok sh column_map n_selected (col_name # rest) st =
     (case dict_get column_map col_name of
        None \<Rightarrow> extract_loop tok sh column_map n_selected rest st
      | Some source_col_idx \<Rightarrow>
          (case copy_rows tok sh source_col_idx n_selected [1..<Suc (max_row sh)] st of
             Inl e \<Rightarrow> Inl e
           | Inr st' \<Rightarrow>
               extract_loop tok sh column_map n_selected rest
                 (st'\<lparr>output_col_idx := Suc (output_col_idx st')\<rparr>)))"

definition extract_columns ::
  "sheet \<Rightarrow> string list \<Rightarrow> string \<Rightarrow> cancellation_token \<Rightarrow> run_result" where
  "extract_columns sh selected_columns output_path tok =
     (case extract_loop tok sh (extract_column_map sh selected_columns)
             (length selected_columns) selected_columns initial_state of
        Inl (e, st) \<Rightarrow>
          \<lparr>outcome = Inl e, saved_file = None, unclosed_workbooks = [0], final_state = st\<rparr>
      | Inr st \<Rightarrow>
          \<lparr>outcome = Inr output_path, saved_file = Some (sheet_of_copies (copies st)),
           unclosed_workbooks = [],
           final_state = st\<lparr>progress := progress st @ [(100, 100)]\<rparr>\<rparr>)"

section \<open>Key-aligned merge\<close>

text \<open>
  \<open>merge_multiple_files\<close> receives the opened sheets, one per entry of \<open>file_infos\<close>.
  The dictionaries \<open>column_maps\<close> and \<open>max_rows\<close> have the keys
  \<open>0 .. len(file_infos) - 1\<close>: a subscript with another file index raises \<open>KeyError\<close>.
\<close>

definition column_map_of :: "sheet \<Rightarrow> (string, nat) dict" where
  "column_map_of sh =
     foldl (\<lambda>column_map (col_idx, v). dict_set column_map (header_name col_idx v) col_idx)
       [] (header_row sh)"

text \<open>Step 2: the distinct keys of a reference column in first-occurrence order.\<close>

definition scan_keys :: "sheet \<Rightarrow> nat \<Rightarrow> cell_value list \<times> (cell_value, nat) dict" where
  "scan_keys ref_sheet ref_col_idx =
     foldl (\<lambda>(keys, key_to_row) row_idx.
              let key_value = cell ref_sheet row_idx ref_col_idx
              in if \<not> dict_has key_to_row key_value
                 then (keys @ [key_value], dict_set key_to_row key_value row_idx)
                 else (keys, key_to_row))
       ([], []) [2..<Suc (max_row ref_sheet)]"

type_synonym references = "(string, cell_value list \<times> (cell_value, nat) dict) dict"

fun build_references ::
  "sheet list \<Rightarrow> (string \<times> nat) list \<Rightarrow> references \<Rightarrow> py_exception + references" where
  "build_references sheets [] refs = Inr refs"
| "build_references sheets ((column_name, ref_file_index) # rest) refs =
     (if length sheets \<le> ref_file_index then Inl KeyError
      else case dict_get (column_map_of (sheets ! ref_file_index)) column_name of
             None \<Rightarrow> build_references sheets rest refs
           | Some ref_col_idx \<Rightarrow>
               build_references sheets rest
                 (dict_set refs column_name (scan_keys (sheets ! ref_file_index) ref_col_idx)))"

text \<open>Step 3: the selected columns grouped by file, files in order of first selection.\<close>

definition columns_by_file :: "(nat \<times> string) list \<Rightarrow> (nat, (nat \<times> string) list) dict" where
  "columns_by_file selected_cols_info =
     foldl (\<lambda>d (fi, column_name). dict_set d fi (dict_list d fi @ [(fi, column_name)]))
       [] selected_cols_info"

text \<open>Step 4: the row mapping of one file.\<close>

definition find_ref_column :: "(string, nat) dict \<Rightarrow> (nat \<times> string) list \<Rightarrow> string option" where
  "find_ref_column reference_column_map cols =
     map_option snd (find (\<lambda>(fi, column_name). dict_has reference_column_map column_name) cols)"

definition direct_mapping :: "nat \<Rightarrow> (nat, nat) dict" where
  "direct_mapping file_max_row =
     fst (foldl (\<lambda>(file_row_mapping, target_row) row_idx.
                   (dict_set file_row_mapping row_idx target_row, Suc target_row))
            ([], 2) [2..<Suc file_max_row])"

definition file_keys :: "sheet \<Rightarrow> nat \<Rightarrow> (cell_value, nat) dict" where
  "file_keys file_sheet file_col_idx =
     foldl (\<lambda>file_key_to_row row_idx.
              let key_value = cell file_sheet row_idx file_col_idx
              in if \<not> dict_has file_key_to_row key_value
                 then dict_set file_key_to_row key_value row_idx
                 else file_key_to_row)
       [] [2..<Suc (max_row file_sheet)]"

definition map_reference_keys ::
  "(cell_value, nat) dict \<Rightarrow> cell_value list \<Rightarrow> (nat, nat) dict \<times> nat \<Rightarrow> (nat, nat) dict \<times> nat" where
  "map_reference_keys file_key_to_row ref_keys start =
     foldl (\<lambda>(file_row_mapping, target_row) ref_key.
              ((case dict_get file_key_to_row ref_key of
                  Some file_row \<Rightarrow> dict_set file_row_mapping file_row target_row
                | None \<Rightarrow> file_row_mapping),
               Suc target_row))
       start ref_keys"

definition append_own_keys ::
  "(cell_value, nat) dict \<Rightarrow> (cell_value, nat) dict \<Rightarrow> (nat, nat) dict \<times> nat
     \<Rightarrow> (nat, nat) dict \<times> nat" where
  "append_own_keys ref_key_to_row file_key_to_row start =
     foldl (\<lambda>(file_row_mapping, target_row) (file_key, file_row).
              if \<not> dict_has ref_key_to_row file_key
              then (dict_set file_row_mapping file_row target_row, Suc target_row)
              else (file_row_mapping, target_row))
       start file_key_to_row"

definition aligned_mapping ::
  "cell_value list \<times> (cell_value, nat) dict \<Rightarrow> sheet \<Rightarrow> nat \<Rightarrow> (nat, nat) dict" where
  "aligned_mapping ref file_sheet file_col_idx =
     (let file_key_to_row = file_keys file_sheet file_col_idx
      in fst (append_own_keys (snd ref) file_key_to_row
                (map_reference_keys file_key_to_row (fst ref) ([], 2))))"

definition file_row_mapping ::
  "sheet list \<Rightarrow> (string, nat) dict \<Rightarrow> references \<Rightarrow> nat \<Rightarrow> (nat \<times> string) list
     \<Rightarrow> py_exception + (nat, nat) dict" where
  "file_row_mapping sheets reference_column_map refs fi cols =
     (case find_ref_column reference_column_map cols of
        Some ref_column_name \<Rightarrow>
          if ref_column_name \<noteq> []
          then (case dict_get refs ref_column_name of
                  None \<Rightarrow> Inl KeyError
                | Some ref \<Rightarrow>
                    if length sheets \<le> fi then Inl KeyError
                    else (case dict_get (column_map_of (sheets ! fi)) ref_column_name of
                            Some file_col_idx \<Rightarrow>
                              Inr (aligned_mapping ref (sheets ! fi) file_col_idx)
                          | None \<Rightarrow> Inr (direct_mapping (max_row (sheets ! fi)))))
          else if length sheets \<le> fi then Inl KeyError
          else Inr (direct_mapping (max_row (sheets ! fi)))
      | None \<Rightarrow>
          if length sheets \<le> fi then Inl KeyError
          else Inr (direct_mapping (max_row (sheets ! fi))))"

fun build_row_mapping ::
  "sheet list \<Rightarrow> (string, nat) dict \<Rightarrow> references \<Rightarrow> (nat, (nat \<times> string) list) dict
     \<Rightarrow> (nat, (nat, nat) dict) dict \<Rightarrow> py_exception + (nat, (nat, nat) dict) dict" where
  "build_row_mapping sheets reference_column_map refs [] row_mapping = Inr row_mapping"
| "build_row_mapping sheets reference_column_map refs ((fi, cols) # rest) row_mapping =
     (case file_row_mapping sheets reference_column_map refs fi cols of
        Inl e \<Rightarrow> Inl e
      | Inr m \<Rightarrow>
          build_row_mapping sheets reference_column_map refs rest (dict_set row_mapping fi m))"

text \<open>Step 5: the emit loops, with a cancellation poll per column and per mapped row.\<close>

fun emit_rows ::
  "cancellation_token \<Rightarrow> sheet \<Rightarrow> nat \<Rightarrow> nat \<Rightarrow> (nat \<times> nat) list \<Rightarrow> copy_state
     \<Rightarrow> (py_exception \<times> copy_state) + copy_state" where
  "emit_rows tok sh fi source_col_idx [] st = Inr st"
| "emit_rows tok sh fi source_col_idx ((source_row, target_row) # rest) st =
     (if tok (polls st) then Inl (TaskCancelledException, st\<lparr>polls := Suc (polls st)\<rparr>)
      else emit_rows tok sh fi source_col_idx rest
             (st\<lparr>polls := Suc (polls st),
                 copies := copies st @
                   [((fi, source_row, source_col_idx), (target_row, output_col_idx st),
                     cell sh source_row source_col_idx)]\<rparr>))"

fun emit_columns ::
  "cancellation_token \<Rightarrow> sheet \<Rightarrow> (nat, nat) dict \<Rightarrow> nat \<Rightarrow> (nat \<times> string) list \<Rightarrow> copy_state
     \<Rightarrow> (py_exception \<times> copy_state) + copy_state" where
  "emit_columns tok sh file_row_map total_cols [] st = Inr st"
| "emit_columns tok sh file_row_map total_cols ((fi, column_name) # rest) st =
     (if tok (polls st) then Inl (TaskCancelledException, st\<lparr>polls := Suc (polls st)\<rparr>)
      else let st1 = st\<lparr>polls := Suc (polls st), processed_cols := Suc (processed_cols st)\<rparr>
           in case dict_get (column_map_of sh) column_name of
                None \<Rightarrow> emit_columns tok sh file_row_map total_cols rest st1
              | Some source_col_idx \<Rightarrow>
                  (let st2 = st1\<lparr>copies := copies st1 @
                               [((fi, 1, source_col_idx), (1, output_col_idx st1),
                                 cell sh 1 source_col_idx)]\<rparr>
                   in case emit_rows tok sh fi source_col_idx file_row_map st2 of
                        Inl e \<Rightarrow> Inl e
                      | Inr st3 \<Rightarrow>
                          emit_columns tok sh file_row_map total_cols rest
                            (st3\<lparr>progress := progress st3 @ [(processed_cols st3, total_cols)],
                                 output_col_idx := Suc (output_col_idx st3)\<rparr>)))"

fun emit_files ::
  "cancellation_token \<Rightarrow> sheet list \<Rightarrow> (nat, (nat \<times> string) list) dict
     \<Rightarrow> (nat, (nat, nat) dict) dict \<Rightarrow> nat \<Rightarrow> nat list \<Rightarrow> copy_state
     \<Rightarrow> (py_exception \<times> copy_state) + copy_state" where
  "emit_files tok sheets cbf row_mapping total_cols [] st = Inr st"
| "emit_files tok sheets cbf row_mapping total_cols (fi # rest) st =
     (if length sheets \<le> fi then Inl (KeyError, st)
      else case dict_get row_mapping fi of
             None \<Rightarrow> Inl (KeyError, st)
           | Some file_row_map \<Rightarrow>
               (case emit_columns tok (sheets ! fi) file_row_map total_cols (dict_list cbf fi) st of
                  Inl e \<Rightarrow> Inl e
                | Inr st' \<Rightarrow> emit_files tok sheets cbf row_mapping total_cols rest st'))"

definition merge_multiple_files ::
  "sheet list \<Rightarrow> (nat \<times> string) list \<Rightarrow> (string, nat) dict \<Rightarrow> string \<Rightarrow> cancellation_token
     \<Rightarrow> run_result" where
  "merge_multiple_files sheets selected_cols_info reference_column_map output_path tok =
     (let failed = (\<lambda>e st. \<lparr>outcome = Inl e, saved_file = None,
                             unclosed_workbooks = [0..<length sheets], final_state = st\<rparr>)
      in case build_references sheets reference_column_map [] of
           Inl e \<Rightarrow> failed e initial_state
         | Inr refs \<Rightarrow>
             (let cbf = columns_by_file selected_cols_info
              in case build_row_mapping sheets reference_column_map refs cbf [] of
                   Inl e \<Rightarrow> failed e initial_state
                 | Inr row_mapping \<Rightarrow>
                     (case emit_files tok sheets cbf row_mapping (length selected_cols_info)
                             (sort (dict_keys cbf)) initial_state of
                        Inl (e, st) \<Rightarrow> failed e st
                      | Inr st \<Rightarrow>
                          \<lparr>outcome = Inr output_path,
                           saved_file = Some (sheet_of_copies (copies st)),
                           unclosed_workbooks = [],
                           final_state = st\<lparr>progress := progress st @ [(100, 100)]\<rparr>\<rparr>)))"

section \<open>Closed forms and specification-level definitions\<close>

subsection \<open>What a run copies\<close>

text \<open>
  The copies that the emit loop performs for one output column, in order: one per item
  of the file's row mapping, from \<open>(file, source_row, source_col)\<close> to
  \<open>(target_row, out_col)\<close>.
\<close>

definition row_copies :: "sheet \<Rightarrow> nat \<Rightarrow> nat \<Rightarrow> nat \<Rightarrow> (nat \<times> nat) list \<Rightarrow> cell_copy list" where
  "row_copies sh fi src out_col frm =
     map (\<lambda>(sr, tr). ((fi, sr, src), (tr, out_col), cell sh sr src)) frm"

text \<open>
  A run of the copying loops is a sequence of steps, one per cancellation poll: the
  copies performed after that poll has read the flag unset and before the next poll.
  A row poll is followed by the copy of that row; a column poll by the copy of the
  column's header cell, or by nothing when the column name does not resolve.
\<close>

definition row_steps :: "sheet \<Rightarrow> nat \<Rightarrow> nat \<Rightarrow> nat \<Rightarrow> (nat \<times> nat) list \<Rightarrow> cell_copy list list" where
  "row_steps sh fi src out_col frm = map (\<lambda>c. [c]) (row_copies sh fi src out_col frm)"

fun column_steps ::
  "sheet \<Rightarrow> (nat, nat) dict \<Rightarrow> nat \<Rightarrow> (nat \<times> string) list \<Rightarrow> cell_copy list list" where
  "column_steps sh frm out_col [] = []"
| "column_steps sh frm out_col ((fi, column_name) # rest) =
     (case dict_get (column_map_of sh) column_name of
        None \<Rightarrow> [] # column_steps sh frm out_col rest
      | Some src \<Rightarrow>
          [((fi, 1, src), (1, out_col), cell sh 1 src)] # row_steps sh fi src out_col frm @
          column_steps sh frm (Suc out_col) rest)"

text \<open>
  The selected columns of a file whose name occurs in the file's header.
\<close>

definition resolved_columns :: "sheet \<Rightarrow> (nat \<times> string) list \<Rightarrow> (nat \<times> string) list" where
  "resolved_columns sh cols = filter (\<lambda>(fi, column_name). dict_has (column_map_of sh) column_name) cols"

text \<open>
  \<open>emit_steps tok st steps k r\<close> describes the result \<open>r\<close> of a loop started in state
  \<open>st\<close> whose uncancelled run consists of \<open>steps\<close> and advances the output column by
  \<open>k\<close>: if no poll reads the flag set the loop returns, having performed all copies;
  otherwise it raises \<open>TaskCancelledException\<close> at the first poll \<open>j\<close> that reads it
  set, having performed exactly the copies of the steps before \<open>j\<close>.
\<close>

definition emit_steps :: "cancellation_token \<Rightarrow> copy_state \<Rightarrow> cell_copy list list \<Rightarrow> nat
   \<Rightarrow> (py_exception \<times> copy_state) + copy_state \<Rightarrow> bool" where
  "emit_steps tok st steps k r =
     (if \<forall>i<length steps. \<not> tok (polls st + i)
      then \<exists>st'. r = Inr st' \<and> copies st' = copies st @ concat steps \<and>
             polls st' = polls st + length steps \<and> output_col_idx st' = output_col_idx st + k
      else \<exists>st' j. r = Inl (TaskCancelledException, st') \<and> j < length steps \<and> tok (polls st + j) \<and>
             (\<forall>i<j. \<not> tok (polls st + i)) \<and> copies st' = copies st @ concat (take j steps))"

text \<open>
  The copies of a completed emit loop over the selected columns of one file, and over
  all files in emit order.
\<close>

fun column_copies :: "sheet \<Rightarrow> (nat, nat) dict \<Rightarrow> nat \<Rightarrow> (nat \<times> string) list \<Rightarrow> cell_copy list" where
  "column_copies sh frm out_col [] = []"
| "column_copies sh frm out_col ((fi, column_name) # rest) =
     (case dict_get (column_map_of sh) column_name of
        None \<Rightarrow> column_copies sh frm out_col rest
      | Some src \<Rightarrow>
          ((fi, 1, src), (1, out_col), cell sh 1 src) # row_copies sh fi src out_col frm @
          column_copies sh frm (Suc out_col) rest)"

fun file_steps ::
  "sheet list \<Rightarrow> (nat, (nat \<times> string) list) dict \<Rightarrow> (nat, (nat, nat) dict) dict \<Rightarrow> nat \<Rightarrow> nat list
     \<Rightarrow> cell_copy list list" where
  "file_steps sheets cbf rm out_col [] = []"
| "file_steps sheets cbf rm out_col (fi # rest) =
     column_steps (sheets ! fi) (dict_list rm fi) out_col (dict_list cbf fi) @
     file_steps sheets cbf rm
       (out_col + length (resolved_columns (sheets ! fi) (dict_list cbf fi))) rest"

fun file_copies ::
  "sheet list \<Rightarrow> (nat, (nat \<times> string) list) dict \<Rightarrow> (nat, (nat, nat) dict) dict \<Rightarrow> nat \<Rightarrow> nat list
     \<Rightarrow> cell_copy list" where
  "file_copies sheets cbf rm out_col [] = []"
| "file_copies sheets cbf rm out_col (fi # rest) =
     column_copies (sheets ! fi) (dict_list rm fi) out_col (dict_list cbf fi) @
     file_copies sheets cbf rm
       (out_col + length (resolved_columns (sheets ! fi) (dict_list cbf fi))) rest"

fun file_resolved ::
  "sheet list \<Rightarrow> (nat, (nat \<times> string) list) dict \<Rightarrow> nat list \<Rightarrow> nat" where
  "file_resolved sheets cbf [] = 0"
| "file_resolved sheets cbf (fi # rest) =
     length (resolved_columns (sheets ! fi) (dict_list cbf fi)) + file_resolved sheets cbf rest"

text \<open>
  Every file of the emit order has a valid index and a row mapping (Step 4 established
  both).
\<close>

definition files_ready :: "sheet list \<Rightarrow> (nat, (nat, nat) dict) dict \<Rightarrow> nat list \<Rightarrow> bool" where
  "files_ready sheets rm files = list_all (\<lambda>fi. fi < length sheets \<and> dict_has rm fi) files"

text \<open>
  The copies, the steps and the number of polls of a completed merge whose Step 4
  produced the row mappings \<open>rm\<close>.
\<close>

definition merged_copies ::
  "sheet list \<Rightarrow> (nat \<times> string) list \<Rightarrow> (nat, (nat, nat) dict) dict \<Rightarrow> cell_copy list" where
  "merged_copies sheets sel rm =
     file_copies sheets (columns_by_file sel) rm 1 (sort (dict_keys (columns_by_file sel)))"

definition merge_steps ::
  "sheet list \<Rightarrow> (nat \<times> string) list \<Rightarrow> (nat, (nat, nat) dict) dict \<Rightarrow> cell_copy list list" where
  "merge_steps sheets sel rm =
     file_steps sheets (columns_by_file sel) rm 1 (sort (dict_keys (columns_by_file sel)))"

definition merge_polls ::
  "sheet list \<Rightarrow> (nat \<times> string) list \<Rightarrow> (nat, (nat, nat) dict) dict \<Rightarrow> nat" where
  "merge_polls sheets sel rm = length (merge_steps sheets sel rm)"

subsection \<open>Keys and row mappings in the words of the specification\<close>

text \<open>
  The key column of a file, read top to bottom from row 2; the distinct values of a list
  in first-occurrence order; the row of the first occurrence of a key; and the dictionary
  from each distinct key to its first row, in first-occurrence order.
\<close>

definition column_keys :: "sheet \<Rightarrow> nat \<Rightarrow> cell_value list" where
  "column_keys sh col = map (\<lambda>r. cell sh r col) [2..<Suc (max_row sh)]"

definition first_occurrences :: "'a list \<Rightarrow> 'a list" where
  "first_occurrences xs = rev (remdups (rev xs))"

definition first_row :: "cell_value list \<Rightarrow> cell_value \<Rightarrow> nat" where
  "first_row ks k = 2 + length (takeWhile (\<lambda>x. x \<noteq> k) ks)"

definition first_rows :: "cell_value list \<Rightarrow> (cell_value, nat) dict" where
  "first_rows ks = map (\<lambda>k. (k, first_row ks k)) (first_occurrences ks)"

text \<open>
  Step 4b as the specification words it. The canonical keys are walked in order with a
  target-row counter that starts at 2 and advances for every canonical key; a key that
  the file has maps the file's first row of that key to the counter's value. Then the
  file's own keys that are not canonical follow in the file's row order, the counter
  continuing from \<open>2 + length canonical\<close>. The result lists the pairs
  (source row, target row) in the order they are entered.
\<close>

definition spec_row_mapping :: "cell_value list \<Rightarrow> cell_value list \<Rightarrow> (nat \<times> nat) list" where
  "spec_row_mapping canonical ks =
     [(first_row ks k, t). (t, k) \<leftarrow> enumerate 2 canonical, k \<in> set ks] @
     [(first_row ks k, t).
        (t, k) \<leftarrow> enumerate (2 + length canonical)
                    [k \<leftarrow> first_occurrences ks. k \<notin> set canonical]]"

text \<open>
  The key column up to row \<open>m\<close> (an auxiliary for the induction over the scan).
\<close>

definition keys_upto :: "sheet \<Rightarrow> nat \<Rightarrow> nat \<Rightarrow> cell_value list" where
  "keys_upto sh col m = map (\<lambda>r. cell sh r col) [2..<Suc m]"

text \<open>
  The two parts of \<open>spec_row_mapping\<close> with an arbitrary start of the counter.
\<close>

definition walk_pairs :: "cell_value list \<Rightarrow> nat \<Rightarrow> cell_value list \<Rightarrow> (nat \<times> nat) list" where
  "walk_pairs ks t0 canonical = [(first_row ks k, t). (t, k) \<leftarrow> enumerate t0 canonical, k \<in> set ks]"

definition own_pairs :: "cell_value list \<Rightarrow> nat \<Rightarrow> cell_value list \<Rightarrow> (nat \<times> nat) list" where
  "own_pairs ks t0 extras = [(first_row ks k, t). (t, k) \<leftarrow> enumerate t0 extras]"

subsection \<open>Example inputs\<close>

text \<open>
  The two files of the worked scenario of the specification.
\<close>

definition file_A :: sheet where
  "file_A = sheet_of_rows
     [[PyStr ''ID'', PyStr ''Name''],
      [PyInt 1, PyStr ''Alice''],
      [PyInt 2, PyStr ''Bob''],
      [PyInt 3, PyStr ''Carol'']]"

definition file_B :: sheet where
  "file_B = sheet_of_rows
     [[PyStr ''ID'', PyStr ''Score''],
      [PyInt 2, PyInt 90],
      [PyInt 3, PyInt 85],
      [PyInt 4, PyInt 77]]"

text \<open>
  A token that is never set, and the saved sheet read as a table of the given size (the
  empty table if nothing was saved).
\<close>

definition never_cancelled :: cancellation_token where
  "never_cancelled = (\<lambda>n. False)"

definition saved_rows :: "run_result \<Rightarrow> nat \<Rightarrow> nat \<Rightarrow> cell_value option list list" where
  "saved_rows res n_rows n_cols =
     (case saved_file res of
        None \<Rightarrow> []
      | Some out \<Rightarrow> map (\<lambda>r. map (\<lambda>c. out (r, c)) [1..<Suc n_cols]) [1..<Suc n_rows])"

text \<open>
  The worked scenario: selection \<open>[(A, ID), (A, Name), (B, Score)]\<close>, reference map
  \<open>{ID: A}\<close>.
\<close>

definition scenario :: run_result where
  "scenario = merge_multiple_files [file_A, file_B] [(0, ''ID''), (0, ''Name''), (1, ''Score'')]
     [(''ID'', 0)] ''out.xlsx'' never_cancelled"

text \<open>
  A selection that takes the ID column from both files, so that both are driven by ID.
\<close>

definition both_ids :: "(nat \<times> string) list" where
  "both_ids = [(0, ''ID''), (0, ''Name''), (1, ''ID''), (1, ''Score'')]"

text \<open>
  Two files whose only column has the empty string as its header, with the keys
  \<open>[1, 2]\<close> and \<open>[2, 1]\<close>; and two files with the key columns K and L, where the
  second file has the rows of the first in another order in column K only.
\<close>

definition unnamed_ref :: sheet where
  "unnamed_ref = sheet_of_rows [[PyStr ''''], [PyInt 1], [PyInt 2]]"

definition unnamed_file :: sheet where
  "unnamed_file = sheet_of_rows [[PyStr ''''], [PyInt 2], [PyInt 1]]"

definition two_keys_ref :: sheet where
  "two_keys_ref = sheet_of_rows
     [[PyStr ''K'', PyStr ''L''],
      [PyInt 1, PyStr ''a''],
      [PyInt 2, PyStr ''b'']]"

definition two_keys_file :: sheet where
  "two_keys_file = sheet_of_rows
     [[PyStr ''K'', PyStr ''L''],
      [PyInt 2, PyStr ''a''],
      [PyInt 1, PyStr ''b'']]"

subsection \<open>The saved sheet of a merge\<close>

text \<open>
  The selected columns that the emit loops write, in output order: the files in
  ascending index, within a file the selected columns whose name occurs in the file's
  header, in selection order. The column at position \<open>j\<close> (from 0) of this list is
  written to output column \<open>j + 1\<close>.
\<close>

fun emit_order ::
  "sheet list \<Rightarrow> (nat, (nat \<times> string) list) dict \<Rightarrow> nat list \<Rightarrow> (nat \<times> string) list" where
  "emit_order sheets cbf [] = []"
| "emit_order sheets cbf (fi # rest) =
     resolved_columns (sheets ! fi) (dict_list cbf fi) @ emit_order sheets cbf rest"

definition emitted_columns :: "sheet list \<Rightarrow> (nat \<times> string) list \<Rightarrow> (nat \<times> string) list" where
  "emitted_columns sheets sel =
     emit_order sheets (columns_by_file sel) (sort (dict_keys (columns_by_file sel)))"

definition target :: "cell_copy \<Rightarrow> nat \<times> nat" where
  "target c = fst (snd c)"

text \<open>
  Three files whose ID columns hold the keys \<open>[1]\<close>, \<open>[1, 5, 6]\<close> and \<open>[1, 6, 5]\<close>,
  and a file with a repeated key.
\<close>

definition ref_file :: sheet where
  "ref_file = sheet_of_rows [[PyStr ''ID''], [PyInt 1]]"

definition left_file :: sheet where
  "left_file = sheet_of_rows
     [[PyStr ''ID'', PyStr ''Name''],
      [PyInt 1, PyStr ''one''],
      [PyInt 5, PyStr ''five''],
      [PyInt 6, PyStr ''six'']]"

definition right_file :: sheet where
  "right_file = sheet_of_rows
     [[PyStr ''ID'', PyStr ''Score''],
      [PyInt 1, PyInt 10],
      [PyInt 6, PyInt 60],
      [PyInt 5, PyInt 50]]"

definition file_D :: sheet where
  "file_D = sheet_of_rows
     [[PyStr ''ID'', PyStr ''Score''],
      [PyInt 2, PyInt 90],
      [PyInt 3, PyInt 85],
      [PyInt 2, PyInt 11]]"

text \<open>
  A token that is set before the operation starts.
\<close>

definition always_cancelled :: cancellation_token where
  "always_cancelled = (\<lambda>n. True)"

subsection \<open>What the extractor copies\<close>

text \<open>
  The copies of one extracted column (every row from 1 to \<open>max_row\<close>), and of a
  completed extraction: one output column per selected name that the column map
  resolves, in selection order.
\<close>

definition column_cells :: "sheet \<Rightarrow> nat \<Rightarrow> nat \<Rightarrow> nat list \<Rightarrow> cell_copy list" where
  "column_cells sh src out_col rows = map (\<lambda>r. ((0, r, src), (r, out_col), cell sh r src)) rows"

fun extract_copies :: "sheet \<Rightarrow> (string, nat) dict \<Rightarrow> nat \<Rightarrow> string list \<Rightarrow> cell_copy list" where
  "extract_copies sh cm out_col [] = []"
| "extract_copies sh cm out_col (col_name # rest) =
     (case dict_get cm col_name of
        None \<Rightarrow> extract_copies sh cm out_col rest
      | Some src \<Rightarrow>
          column_cells sh src out_col [1..<Suc (max_row sh)] @
          extract_copies sh cm (Suc out_col) rest)"

definition resolved_names :: "(string, nat) dict \<Rightarrow> string list \<Rightarrow> string list" where
  "resolved_names cm names = filter (dict_has cm) names"

text \<open>
  The extractor polls once before every copy, so its steps are its copies: a run
  cancelled at the first set poll \<open>j\<close> has performed exactly the first \<open>j\<close> copies.
\<close>

definition emit_exact :: "cancellation_token \<Rightarrow> copy_state \<Rightarrow> cell_copy list \<Rightarrow> nat
   \<Rightarrow> (py_exception \<times> copy_state) + copy_state \<Rightarrow> bool" where
  "emit_exact tok st cs k r =
     (if \<forall>i<length cs. \<not> tok (polls st + i)
      then \<exists>st'. r = Inr st' \<and> copies st' = copies st @ cs \<and> polls st' = polls st + length cs \<and>
             output_col_idx st' = output_col_idx st + k
      else \<exists>st' j. r = Inl (TaskCancelledException, st') \<and> j < length cs \<and> tok (polls st + j) \<and>
             (\<forall>i<j. \<not> tok (polls st + i)) \<and> copies st' = copies st @ take j cs)"

definition extracted_copies :: "sheet \<Rightarrow> string list \<Rightarrow> cell_copy list" where
  "extracted_copies sh selected = extract_copies sh (extract_column_map sh selected) 1 selected"

definition extract_polls :: "sheet \<Rightarrow> string list \<Rightarrow> nat" where
  "extract_polls sh selected = length (extracted_copies sh selected)"

subsection \<open>Header resolution\<close>

text \<open>
  The names of the header cells from left to right, and the rightmost column whose header
  has a given name (0 when there is none): a later header cell of the same name
  overwrites the earlier one in the column map.
\<close>

definition header_names :: "sheet \<Rightarrow> string list" where
  "header_names sh = map (\<lambda>(c, v). header_name c v) (header_row sh)"

definition last_header_column :: "sheet \<Rightarrow> string \<Rightarrow> nat" where
  "last_header_column sh n =
     (case find (\<lambda>(c, v). header_name c v = n) (rev (header_row sh)) of
        Some (c, v) \<Rightarrow> c
      | None \<Rightarrow> 0)"

definition column_of :: "(string, nat) dict \<Rightarrow> string \<Rightarrow> nat" where
  "column_of cm n = (case dict_get cm n of Some c \<Rightarrow> c | None \<Rightarrow> 0)"

text \<open>
  The selected names that occur in the header, in selection order.
\<close>

definition resolving_names :: "sheet \<Rightarrow> string list \<Rightarrow> string list" where
  "resolving_names sh selected = [n \<leftarrow> selected. n \<in> set (header_names sh)]"

text \<open>
  A sheet whose second header cell is blank.
\<close>

definition blank_header :: sheet where
  "blank_header = sheet_of_rows [[PyStr ''ID'', PyNone], [PyInt 1, PyInt 2]]"

text \<open>
  A token that is set from the moment of the poll number \<open>t\<close> on.
\<close>

definition cancelled_from :: "nat \<Rightarrow> cancellation_token" where
  "cancelled_from t = (\<lambda>n. t \<le> n)"

section \<open>Properties of the progress percentage\<close>

subsection \<open>Signs\<close>

lemma round_half_even_nonneg: "0 \<le> num \<Longrightarrow> 0 < den \<Longrightarrow> 0 \<le> round_half_even num den"
  by (auto simp: round_half_even_def Let_def pos_imp_zdiv_nonneg_iff)

lemma round_ratio_nonneg: "0 \<le> p \<Longrightarrow> 0 < q \<Longrightarrow> 0 \<le> mantissa (round_ratio p q)"
  by (auto simp: round_ratio_def Let_def sgn_if intro!: round_half_even_nonneg mult_pos_pos)

lemma fmul_int_nonneg: "0 \<le> mantissa d \<Longrightarrow> 0 \<le> n \<Longrightarrow> 0 \<le> mantissa (fmul_int d n)"
  by (cases d) (auto intro!: round_ratio_nonneg)

lemma py_int_nonneg: "0 \<le> mantissa d \<Longrightarrow> 0 \<le> py_int d"
  by (cases d) (auto simp: sgn_if pos_imp_zdiv_nonneg_iff)

lemma py_int_floor: "0 \<le> mantissa d \<Longrightarrow> py_int d = py_floor d"
  by (cases d) (auto simp: sgn_if)

lemma percentage_le_100: "percentage cur tot = Inr p \<Longrightarrow> p \<le> 100"
  by (auto simp: percentage_def Let_def split: if_splits)

lemma percentage_nonneg:
  assumes "0 \<le> cur" "percentage cur tot = Inr p" shows "0 \<le> p"
proof (cases "tot \<le> 0")
  case True then show ?thesis using assms by (simp add: percentage_def)
next
  case False
  then have "0 \<le> mantissa (fmul_int (round_ratio cur tot) 100)"
    using assms(1) by (intro fmul_int_nonneg round_ratio_nonneg) auto
  then have "0 \<le> py_int (fmul_int (round_ratio cur tot) 100)" by (rule py_int_nonneg)
  then show ?thesis using assms(2) False by (auto simp: percentage_def Let_def split: if_splits)
qed

lemma bit_length_nonneg: "0 \<le> bit_length n"
  by (induction n rule: bit_length.induct) (subst bit_length.simps, auto)

lemma bit_length_le: "0 \<le> k \<Longrightarrow> n < 2 ^ nat k \<Longrightarrow> bit_length n \<le> k"
proof (induction n arbitrary: k rule: bit_length.induct)
  case (1 n)
  show ?case
  proof (cases "n \<le> 0")
    case True then show ?thesis using 1(2) by (subst bit_length.simps) simp
  next
    case False
    then have kpos: "0 < k" using 1(2,3) by (cases "k = 0") auto
    then have "(2::int) ^ nat k = 2 * 2 ^ nat (k - 1)"
      by (metis Suc_nat_eq_nat_zadd1 add.commute diff_add_cancel power_Suc zle_diff1_eq)
    then have "n div 2 < 2 ^ nat (k - 1)" using 1(3) by linarith
    then have "bit_length (n div 2) \<le> k - 1" using 1(1)[OF False, of "k - 1"] kpos by simp
    then show ?thesis using False by (subst bit_length.simps) simp
  qed
qed


subsection \<open>Evaluations\<close>

lemma round_ratio_minus_1: "round_ratio (- 1) 1 = Double (- 4503599627370496) (- 52)"
  by (simp add: round_ratio_def round_half_even_def Let_def bit_length.simps)

lemma fmul_int_minus_1: "fmul_int (Double (- 4503599627370496) (- 52)) 100 = Double (- 7036874417766400) (- 46)"
  by (simp add: round_ratio_def round_half_even_def Let_def bit_length.simps)

lemma percentage_minus_1: "percentage (- 1) 1 = Inr (- 100)"
  unfolding percentage_def Let_def round_ratio_minus_1 fmul_int_minus_1
  by (simp add: double_limit_def)

lemma round_ratio_29_100: "round_ratio 29 100 = Double 5224175567749775 (- 54)"
  by (simp add: round_ratio_def round_half_even_def Let_def bit_length.simps)

lemma fmul_int_29_100: "fmul_int (Double 5224175567749775 (- 54)) 100 = Double 8162774324609023 (- 48)"
  by (simp add: round_ratio_def round_half_even_def Let_def bit_length.simps)

lemma percentage_29_100: "percentage 29 100 = Inr 28"
  unfolding percentage_def Let_def round_ratio_29_100 fmul_int_29_100
  by (simp add: double_limit_def)

lemma round_ratio_1_3: "round_ratio 1 3 = Double 6004799503160661 (- 54)"
  by (simp add: round_ratio_def round_half_even_def Let_def bit_length.simps)

lemma fmul_int_1_3:
  "fmul_int (Double 6004799503160661 (- 54)) 100 = Double 4691249611844266 (- 47)"
  by (simp add: round_ratio_def round_half_even_def Let_def bit_length.simps)

lemma float_product_1_3: "float_product 1 3 = Double 4691249611844266 (- 47)"
  unfolding float_product_def round_ratio_1_3 fmul_int_1_3 ..

subsection \<open>Truncation and sign symmetry\<close>

lemma round_ratio_neg: "round_ratio (- p) q = negate (round_ratio p q)"
  by (simp add: round_ratio_def Let_def)

lemma fmul_int_neg: "fmul_int (negate d) n = negate (fmul_int d n)"
  by (cases d) (simp add: round_ratio_neg)

lemma py_int_neg: "py_int (negate d) = - py_int d"
  by (cases d) simp

lemma overflows_neg: "overflows (negate d) = overflows d"
  by (cases d) simp

lemma float_product_neg: "float_product (- cur) tot = negate (float_product cur tot)"
  by (simp add: float_product_def round_ratio_neg fmul_int_neg)

lemma float_product_nonneg: "0 \<le> cur \<Longrightarrow> 0 < tot \<Longrightarrow> 0 \<le> mantissa (float_product cur tot)"
  unfolding float_product_def by (intro fmul_int_nonneg round_ratio_nonneg) auto

text \<open>
  \<open>py_floor\<close> is the floor and \<open>py_int\<close> the truncation toward zero of the number
  \<open>m * 2 ^ e\<close>: for a negative exponent, \<open>py_floor\<close> is the integer \<open>n\<close> with
  \<open>n * 2 ^ (- e) \<le> m < (n + 1) * 2 ^ (- e)\<close>, and \<open>py_int\<close> is the floor of the
  magnitude with the sign put back.
\<close>

lemma py_floor_bounds:
  "e < 0 \<Longrightarrow> py_floor (Double m e) * 2 ^ nat (- e) \<le> m \<and>
             m < (py_floor (Double m e) + 1) * 2 ^ nat (- e)"
proof -
  assume e: "e < 0"
  define k :: int where "k = 2 ^ nat (- e)"
  have pos: "0 < k" by (simp add: k_def)
  have eq: "m = m div k * k + m mod k" by simp
  have "0 \<le> m mod k" "m mod k < k" using pos by simp_all
  then have "m div k * k \<le> m" "m < m div k * k + k" using eq by linarith+
  then have "m div k * k \<le> m \<and> m < (m div k + 1) * k" by (simp add: algebra_simps)
  then show ?thesis using e by (simp add: k_def)
qed

lemma py_int_truncates:
  "py_int (Double m e) = sgn m * py_floor (Double \<bar>m\<bar> e)"
proof -
  have "m * 2 ^ nat e = sgn m * \<bar>m\<bar> * 2 ^ nat e" by (simp add: sgn_mult_abs)
  then show ?thesis by (simp add: mult.assoc)
qed

lemma percentage_value:
  "0 < tot \<Longrightarrow> percentage cur tot = Inr p \<Longrightarrow> p = min 100 (py_int (float_product cur tot))"
  by (auto simp: percentage_def float_product_def Let_def split: if_splits)

lemma round_ratio_minus_1_3: "round_ratio (- 1) 3 = Double (- 6004799503160661) (- 54)"
  by (simp add: round_ratio_def round_half_even_def Let_def bit_length.simps)

lemma fmul_int_minus_1_3:
  "fmul_int (Double (- 6004799503160661) (- 54)) 100 = Double (- 4691249611844266) (- 47)"
  by (simp add: round_ratio_def round_half_even_def Let_def bit_length.simps)

lemma percentage_minus_1_3: "percentage (- 1) 3 = Inr (- 33)"
  unfolding percentage_def Let_def round_ratio_minus_1_3 fmul_int_minus_1_3
  by (simp add: double_limit_def)

subsection \<open>Range of the quotient and the product\<close>

lemma bit_length_pos: "0 < n \<Longrightarrow> 1 \<le> bit_length n"
  using bit_length_nonneg[of "n div 2"] by (subst bit_length.simps) simp

lemma bit_length_bounds:
  "0 < n \<Longrightarrow> 2 ^ nat (bit_length n - 1) \<le> n \<and> n < 2 ^ nat (bit_length n)"
proof (induction n rule: bit_length.induct)
  case (1 n)
  have bl: "bit_length n = bit_length (n div 2) + 1" using 1(2) by (subst bit_length.simps) simp
  show ?case
  proof (cases "n div 2 \<le> 0")
    case True
    then have n1: "n = 1" using 1(2) by linarith
    have "bit_length (n div 2) = 0" using True by (subst bit_length.simps) simp
    then show ?thesis using bl n1 by simp
  next
    case False
    then have h: "0 < n div 2" by simp
    from 1(1) 1(2) h have IH: "2 ^ nat (bit_length (n div 2) - 1) \<le> n div 2"
      "n div 2 < 2 ^ nat (bit_length (n div 2))" by simp_all
    have p1: "1 \<le> bit_length (n div 2)" using h by (rule bit_length_pos)
    have e1: "(2::int) ^ nat (bit_length n - 1) = 2 * 2 ^ nat (bit_length (n div 2) - 1)"
    proof -
      have "nat (bit_length n - 1) = Suc (nat (bit_length (n div 2) - 1))" using bl p1 by simp
      then show ?thesis by simp
    qed
    have e2: "(2::int) ^ nat (bit_length n) = 2 * 2 ^ nat (bit_length (n div 2))"
    proof -
      have "nat (bit_length n) = Suc (nat (bit_length (n div 2)))" using bl p1 by simp
      then show ?thesis by simp
    qed
    show ?thesis unfolding e1 e2 using IH by linarith
  qed
qed

lemma round_half_even_le:
  assumes "0 < den" "num < den * M"
  shows "round_half_even num den \<le> M"
proof -
  have e: "num = den * (num div den) + num mod den" by simp
  have "0 \<le> num mod den" using assms(1) by simp
  then have "den * (num div den) \<le> num" using e by linarith
  then have "num div den * den \<le> num" by (simp only: mult.commute)
  then have "num div den * den < M * den" using assms(2) by (simp add: mult.commute)
  then have "num div den < M" using assms(1) by (simp add: mult_less_cancel_right)
  then show ?thesis by (simp add: round_half_even_def Let_def)
qed

text \<open>
  The exponent that \<open>round_ratio\<close> chooses puts the quotient below \<open>2 ^ (b + 1)\<close>, so the
  rounded significand is at most \<open>2 ^ 53\<close>.
\<close>

lemma quotient_below:
  assumes "0 < a" "0 < q"
  defines "k \<equiv> bit_length a - bit_length q"
  shows "if 0 \<le> k + 1 then a < q * 2 ^ nat (k + 1) else a * 2 ^ nat (- (k + 1)) < q"
proof -
  from bit_length_bounds[OF assms(1)] have a: "a < 2 ^ nat (bit_length a)" by simp
  from bit_length_bounds[OF assms(2)] have q: "2 ^ nat (bit_length q - 1) \<le> q" by simp
  have pq: "1 \<le> bit_length q" using assms(2) by (rule bit_length_pos)
  have pa: "1 \<le> bit_length a" using assms(1) by (rule bit_length_pos)
  show ?thesis
  proof (cases "0 \<le> k + 1")
    case True
    have "nat (bit_length a) = nat (k + 1) + nat (bit_length q - 1)"
      using True pq unfolding k_def by arith
    then have "(2::int) ^ nat (bit_length a) = 2 ^ nat (k + 1) * 2 ^ nat (bit_length q - 1)"
      by (simp only: power_add)
    also have "\<dots> \<le> 2 ^ nat (k + 1) * q" using q by (simp add: mult_left_mono)
    finally have "a < 2 ^ nat (k + 1) * q" using a by linarith
    then have "a < q * 2 ^ nat (k + 1)" by (simp only: mult.commute)
    then show ?thesis using True by (simp only: if_True)
  next
    case False
    then have n: "0 \<le> - (k + 1)" by simp
    have "nat (bit_length q - 1) = nat (bit_length a) + nat (- (k + 1))"
      using n pa unfolding k_def by arith
    then have eq: "(2::int) ^ nat (bit_length q - 1) = 2 ^ nat (bit_length a) * 2 ^ nat (- (k + 1))"
      by (simp only: power_add)
    have lt: "a * 2 ^ nat (- (k + 1)) < 2 ^ nat (bit_length a) * 2 ^ nat (- (k + 1))"
      using a by (simp add: mult_strict_right_mono)
    have "a * 2 ^ nat (- (k + 1)) < q" using lt eq q by linarith
    then show ?thesis using False by (simp only: if_False)
  qed
qed

lemma round_ratio_bounded:
  assumes "0 < q" "p \<noteq> 0" "\<bar>p\<bar> < 2 ^ N"
  shows "\<exists>m e. round_ratio p q = Double m e \<and> \<bar>m\<bar> \<le> 2 ^ 53 \<and> e \<le> int N - 53"
proof -
  define a where "a = \<bar>p\<bar>"
  define k where "k = bit_length a - bit_length q"
  define b where "b = (if (if 0 \<le> k then 2 ^ nat k * q \<le> a else q \<le> a * 2 ^ nat (- k))
                       then k else k - 1)"
  define e where "e = b - 52"
  define m where "m = (if 0 \<le> e then round_half_even a (q * 2 ^ nat e)
                       else round_half_even (a * 2 ^ nat (- e)) q)"
  have rr: "round_ratio p q = Double (sgn p * m) e"
    using assms(2) by (simp add: round_ratio_def Let_def a_def k_def b_def e_def m_def)
  have apos: "0 < a" using assms(2) by (simp add: a_def)
  have below: "if 0 \<le> b + 1 then a < q * 2 ^ nat (b + 1) else a * 2 ^ nat (- (b + 1)) < q"
  proof (cases "if 0 \<le> k then 2 ^ nat k * q \<le> a else q \<le> a * 2 ^ nat (- k)")
    case True
    then have "b = k" by (simp add: b_def)
    then show ?thesis using quotient_below[OF apos assms(1)] by (simp only: k_def)
  next
    case False
    then have bk: "b + 1 = k" by (simp add: b_def)
    show ?thesis
    proof (cases "0 \<le> k")
      case True
      then have "a < 2 ^ nat k * q" using False by simp
      then have "a < q * 2 ^ nat k" by (simp only: mult.commute)
      then show ?thesis unfolding bk using True by (simp only: if_True)
    next
      case nk: False
      then have "a * 2 ^ nat (- k) < q" using False by simp
      then show ?thesis unfolding bk using nk by (simp only: if_False)
    qed
  qed
  have mle: "m \<le> 2 ^ 53"
  proof (cases "0 \<le> e")
    case True
    then have b1: "0 \<le> b + 1" by (simp add: e_def)
    have "nat (b + 1) = nat e + 53" using True unfolding e_def by arith
    then have "(2::int) ^ nat (b + 1) = 2 ^ nat e * 2 ^ 53" by (simp only: power_add)
    then have "a < q * (2 ^ nat e * 2 ^ 53)" using below b1 by (simp only: if_True)
    then have "a < q * 2 ^ nat e * 2 ^ 53" by (simp only: mult.assoc)
    moreover have "0 < q * 2 ^ nat e" using assms(1) by simp
    ultimately have "round_half_even a (q * 2 ^ nat e) \<le> 2 ^ 53"
      by (intro round_half_even_le)
    then show ?thesis using True by (simp only: m_def if_True)
  next
    case False
    have "a * 2 ^ nat (- e) < q * 2 ^ 53"
    proof (cases "0 \<le> b + 1")
      case True
      then have lt: "a < q * 2 ^ nat (b + 1)" using below by (simp only: if_True)
      have "53 = nat (b + 1) + nat (- e)" using True False unfolding e_def by arith
      then have "(2::int) ^ 53 = 2 ^ nat (b + 1) * 2 ^ nat (- e)" by (simp only: power_add)
      then have "q * 2 ^ 53 = q * 2 ^ nat (b + 1) * 2 ^ nat (- e)" by (simp only: mult.assoc)
      moreover have "a * 2 ^ nat (- e) < q * 2 ^ nat (b + 1) * 2 ^ nat (- e)"
        using lt by (simp add: mult_strict_right_mono)
      ultimately show ?thesis by linarith
    next
      case nb: False
      then have lt: "a * 2 ^ nat (- (b + 1)) < q" using below by (simp only: if_False)
      have "nat (- e) = nat (- (b + 1)) + 53" using nb unfolding e_def by arith
      then have "(2::int) ^ nat (- e) = 2 ^ nat (- (b + 1)) * 2 ^ 53" by (simp only: power_add)
      then have "a * 2 ^ nat (- e) = a * 2 ^ nat (- (b + 1)) * 2 ^ 53" by (simp only: mult.assoc)
      moreover have "a * 2 ^ nat (- (b + 1)) * 2 ^ 53 < q * 2 ^ 53"
        using lt by (simp add: mult_strict_right_mono)
      ultimately show ?thesis by linarith
    qed
    then have "round_half_even (a * 2 ^ nat (- e)) q \<le> 2 ^ 53"
      using assms(1) by (intro round_half_even_le)
    then show ?thesis using False by (simp only: m_def if_False)
  qed
  have mnn: "0 \<le> m"
    using apos assms(1) unfolding m_def by (auto intro!: round_half_even_nonneg mult_pos_pos)
  have abs: "\<bar>sgn p * m\<bar> = m" using assms(2) mnn by (simp add: abs_mult)
  have "a < 2 ^ nat (int N)" using assms(3) by (simp add: a_def)
  then have "bit_length a \<le> int N" by (intro bit_length_le) simp_all
  moreover have "1 \<le> bit_length q" using assms(1) by (rule bit_length_pos)
  moreover have "b \<le> k" by (simp add: b_def)
  ultimately have "e \<le> int N - 53" unfolding e_def k_def by linarith
  then show ?thesis using rr abs mle by (metis)
qed

lemma round_ratio_range:
  assumes "0 < q" "\<bar>p\<bar> < 2 ^ N" "53 \<le> N"
  shows "\<exists>m e. round_ratio p q = Double m e \<and> \<bar>m\<bar> \<le> 2 ^ 53 \<and> e \<le> int N - 53"
proof (cases "p = 0")
  case True
  then have "round_ratio p q = Double 0 0" by (simp add: round_ratio_def)
  then show ?thesis using assms(3) by simp
next
  case False
  then show ?thesis using assms(1,2) by (intro round_ratio_bounded)
qed

lemma no_overflow:
  assumes "\<bar>m\<bar> \<le> 2 ^ 53" "e \<le> 970"
  shows "\<not> overflows (Double m e)"
proof (cases "0 \<le> e")
  case True
  have "nat e \<le> 970" using assms(2) by simp
  then have "(2::int) ^ nat e \<le> 2 ^ 970" by (intro power_increasing) simp_all
  then have "\<bar>m\<bar> * 2 ^ nat e \<le> 2 ^ 53 * 2 ^ 970"
    using assms(1) by (intro mult_mono) simp_all
  also have "\<dots> < double_limit" by (simp add: double_limit_def)
  finally show ?thesis using True by simp
next
  case False
  have "\<bar>m\<bar> < double_limit * 1" using assms(1) by (simp add: double_limit_def)
  also have "\<dots> \<le> double_limit * 2 ^ nat (- e)"
    by (intro mult_left_mono) (simp_all add: double_limit_def)
  finally show ?thesis using False by simp
qed

text \<open>
  The property returns a value for every positive \<open>total\<close> and every \<open>current\<close> of
  magnitude below \<open>2 ^ 1000\<close>: neither the quotient nor the product leaves the range of
  the doubles.
\<close>

lemma percentage_returns:
  assumes "0 < tot" "\<bar>cur\<bar> < 2 ^ 1000"
  shows "\<exists>p. percentage cur tot = Inr p"
proof -
  from round_ratio_range[OF assms(1), of cur 1000] assms(2) obtain m e where
    q: "round_ratio cur tot = Double m e" and m: "\<bar>m\<bar> \<le> 2 ^ 53" and e: "e \<le> 947" by auto
  have o1: "\<not> overflows (round_ratio cur tot)" unfolding q using m e by (intro no_overflow) simp_all
  have "\<exists>m' e'. fmul_int (Double m e) 100 = Double m' e' \<and> \<bar>m'\<bar> \<le> 2 ^ 53 \<and> e' \<le> int 1007 - 53"
  proof (cases "0 \<le> e")
    case True
    have "nat e \<le> 947" using e by simp
    then have "(2::int) ^ nat e \<le> 2 ^ 947" by (intro power_increasing) simp_all
    moreover have "\<bar>m\<bar> * 100 \<le> 2 ^ 53 * 100" using m by simp
    ultimately have "\<bar>m\<bar> * 100 * 2 ^ nat e \<le> 2 ^ 53 * 100 * 2 ^ 947"
      by (intro mult_mono) simp_all
    also have "\<dots> < 2 ^ 1007" by simp
    finally have "\<bar>m * 100 * 2 ^ nat e\<bar> < 2 ^ 1007" by (simp add: abs_mult)
    from round_ratio_range[OF _ this, of 1] show ?thesis using True by simp
  next
    case False
    have "\<bar>m\<bar> * 100 \<le> 2 ^ 53 * 100" using m by simp
    also have "\<dots> < 2 ^ 1007" by simp
    finally have "\<bar>m * 100\<bar> < 2 ^ 1007" by (simp add: abs_mult)
    from round_ratio_range[OF _ this, of "2 ^ nat (- e)"] show ?thesis using False by simp
  qed
  then obtain m' e' where y: "fmul_int (Double m e) 100 = Double m' e'"
    and m': "\<bar>m'\<bar> \<le> 2 ^ 53" and e': "e' \<le> 954" by auto
  have o2: "\<not> overflows (fmul_int (round_ratio cur tot) 100)"
    unfolding q y using m' e' by (intro no_overflow) simp_all
  show ?thesis using assms(1) o1 o2 by (simp add: percentage_def Let_def)
qed

lemma bit_length_pow2: "bit_length (2 ^ n) = int n + 1"
proof (induction n)
  case 0
  show ?case by (simp add: bit_length.simps)
next
  case (Suc n)
  have "bit_length (2 ^ Suc n) = bit_length (2 ^ Suc n div 2) + 1"
    by (subst bit_length.simps) simp
  then show ?case using Suc by simp
qed

lemma round_ratio_limit: "round_ratio double_limit 1 = Double (2 ^ 52) 972"
proof -
  have bl: "bit_length \<bar>double_limit\<bar> = 1025"
    unfolding double_limit_def using bit_length_pow2[of 1024] by simp
  have b1: "bit_length 1 = 1" by (simp add: bit_length.simps)
  have nz: "double_limit \<noteq> 0" "sgn double_limit = 1" "\<bar>double_limit\<bar> = double_limit"
    by (simp_all add: double_limit_def)
  have t: "(2::int) ^ nat 1024 * 1 \<le> double_limit" by (simp add: double_limit_def)
  have r: "round_half_even double_limit (1 * 2 ^ nat 972) = 2 ^ 52"
    by (simp add: round_half_even_def double_limit_def Let_def)
  show ?thesis
    unfolding round_ratio_def Let_def bl b1 using nz t r by simp
qed

lemma percentage_overflow: "percentage double_limit 1 = Inl OverflowError"
proof -
  have "overflows (Double (2 ^ 52) 972)" by (simp add: double_limit_def)
  then show ?thesis by (simp add: percentage_def Let_def round_ratio_limit del: overflows.simps)
qed

subsection \<open>Claim C9: the percentage formula\<close>

text \<open>
  Claim C9 as stated fails. With \<open>current = -1\<close> and \<open>total = 1\<close> the code returns
  \<open>-100\<close>, below 0, where the stated formula gives 0: the code applies \<open>min(100, _)\<close>
  only, there is no lower clamp. With \<open>current = 29\<close> and \<open>total = 100\<close> the code
  returns 28 where the stated formula gives 29: the quotient and the product are rounded
  to doubles before \<open>int\<close> truncates. With \<open>current = 2 ^ 1024\<close> and \<open>total = 1\<close>
  the division raises \<open>OverflowError\<close> and no percentage is computed.
\<close>

theorem percentage_counterexample:
  "percentage (- 1) 1 = Inr (- 100) \<and> spec_percentage (- 1) 1 = 0 \<and>
   percentage 29 100 = Inr 28 \<and> spec_percentage 29 100 = 29 \<and>
   percentage double_limit 1 = Inl OverflowError \<and> spec_percentage double_limit 1 = 100"
proof -
  have "spec_percentage double_limit 1 = 100"
    by (simp add: spec_percentage_def clamp_def double_limit_def)
  then show ?thesis
    by (simp add: percentage_minus_1 percentage_29_100 percentage_overflow spec_percentage_def
        clamp_def)
qed

text \<open>
  Claim C9, amended. The percentage is 0 whenever \<open>total \<le> 0\<close>. For \<open>total > 0\<close> the
  property returns a value whenever the magnitude of \<open>current\<close> is below \<open>2 ^ 1000\<close>,
  and whenever it returns a value \<open>p\<close>, that value is \<open>min(100, int(x))\<close> where \<open>x\<close> is
  the floating-point product \<open>(current / total) * 100\<close> and \<open>int\<close> truncates toward
  zero. So \<open>p\<close> is at most 100; for \<open>current \<ge> 0\<close> it is at least 0 and equals
  \<open>clamp(0, 100, floor(x))\<close>; for \<open>current < 0\<close> it is at most 0, it is not clamped
  from below, and it is the negated floor of the floating-point product for
  \<open>- current\<close> (the truncation of \<open>x\<close> toward zero, not its floor).
\<close>

theorem percentage_amended:
  "(tot \<le> 0 \<longrightarrow> percentage cur tot = Inr 0) \<and>
   (0 < tot \<and> \<bar>cur\<bar> < 2 ^ 1000 \<longrightarrow> (\<exists>p'. percentage cur tot = Inr p')) \<and>
   (0 < tot \<and> percentage cur tot = Inr p \<longrightarrow>
      p = min 100 (py_int (float_product cur tot)) \<and>
      p \<le> 100 \<and>
      (0 \<le> cur \<longrightarrow> 0 \<le> p \<and> p = clamp 0 100 (py_floor (float_product cur tot))) \<and>
      (cur < 0 \<longrightarrow> p \<le> 0 \<and> p = - py_floor (float_product (- cur) tot)))"
proof (intro conjI impI)
  show "percentage cur tot = Inr 0" if "tot \<le> 0"
    using that by (simp add: percentage_def)
next
  assume "0 < tot \<and> \<bar>cur\<bar> < 2 ^ 1000"
  then show "\<exists>p'. percentage cur tot = Inr p'" by (intro percentage_returns) simp_all
next
  assume a: "0 < tot \<and> percentage cur tot = Inr p"
  then have t: "0 < tot" and r: "percentage cur tot = Inr p" by simp_all
  show v: "p = min 100 (py_int (float_product cur tot))" using t r by (rule percentage_value)
  then show "p \<le> 100" by simp
  {
    assume c: "0 \<le> cur"
    have m: "0 \<le> mantissa (float_product cur tot)" using c t by (rule float_product_nonneg)
    show "0 \<le> p" using c r by (rule percentage_nonneg)
    have "p = min 100 (py_floor (float_product cur tot))"
      using v m by (simp add: py_int_floor)
    then show "p = clamp 0 100 (py_floor (float_product cur tot))"
      using \<open>0 \<le> p\<close> by (simp add: clamp_def)
  }
  {
    assume c: "cur < 0"
    have m: "0 \<le> mantissa (float_product (- cur) tot)"
      using c t by (intro float_product_nonneg) simp_all
    have "py_int (float_product cur tot) = - py_int (float_product (- cur) tot)"
      using float_product_neg[of "- cur" tot] by (simp add: py_int_neg)
    also have "\<dots> = - py_floor (float_product (- cur) tot)"
      using m by (simp add: py_int_floor)
    finally have e: "py_int (float_product cur tot) = - py_floor (float_product (- cur) tot)" .
    have n: "0 \<le> py_floor (float_product (- cur) tot)"
      using py_int_nonneg[OF m] m by (simp add: py_int_floor)
    show "p \<le> 0" using v e n by simp
    show "p = - py_floor (float_product (- cur) tot)" using v e n by simp
  }
qed

text \<open>
  Claim C9, amended, at \<open>current = -1\<close> and \<open>total = 3\<close>: the floating-point product
  for \<open>1 / 3\<close> has floor 33, the code returns \<open>-33\<close> (the floor of the product for
  \<open>-1 / 3\<close> would be \<open>-34\<close>).
\<close>

theorem percentage_amended_witness:
  "percentage (- 1) 3 = Inr (- 33) \<and> (- 33::int) \<le> 0 \<and>
   - 33 = - py_floor (float_product 1 3) \<and> py_floor (float_product (- 1) 3) = - 34"
proof -
  have f: "py_floor (float_product (- 1) 3) = - 34"
    using float_product_neg[of 1 3] by (simp add: float_product_1_3)
  from percentage_amended [of 3 "- 1" "- 33"] show ?thesis
    using f by (simp add: percentage_minus_1_3)
qed

section \<open>Properties of the task runner\<close>

lemma fired_returns:
  "fired cbs (Returns r) cancelled = (if \<not> cancelled \<and> on_complete cbs then [OnComplete r] else [])"
  by (simp add: fired_def)

lemma fired_cancelled:
  "fired cbs (Raises TaskCancelledException) cancelled = (if on_cancelled cbs then [OnCancelled] else [])"
  by (simp add: fired_def)

lemma fired_error: "e \<noteq> TaskCancelledException \<Longrightarrow> fired cbs (Raises e) cancelled = []"
  by (cases e) (simp_all add: fired_def)

subsection \<open>Claim C8: terminal callbacks\<close>

text \<open>
  Claim C8 as stated fails. When the task function returns normally while the
  cancellation flag is set, no callable is scheduled and no terminal callback fires,
  although the caller supplied all three. When it returns normally with the flag unset
  and the caller did not supply \<open>on_complete\<close>, none fires either.
\<close>

theorem run_task_counterexample:
  "fst (run_task \<lparr>on_complete = True, on_error = True, on_cancelled = True\<rparr>
          (Returns ''out.xlsx'') True) = [] \<and>
   fired \<lparr>on_complete = True, on_error = True, on_cancelled = True\<rparr>
     (Returns ''out.xlsx'') True = [] \<and>
   fired \<lparr>on_complete = False, on_error = True, on_cancelled = True\<rparr>
     (Returns ''out.xlsx'') False = []"
  by (simp add: fired_def)

text \<open>
  On the error path the scheduled callable is \<open>lambda: on_error(e)\<close>. When the event
  loop calls it, \<open>e\<close> is no longer bound: the call raises \<open>NameError\<close> and
  \<open>on_error\<close> is not reached.
\<close>

lemma error_callback_not_reached:
  "run_task \<lparr>on_complete = True, on_error = True, on_cancelled = True\<rparr>
     (Raises (OtherException ''boom'')) False =
     ([ErrorLambda], \<lparr>result_var = None, e_var = None\<rparr>) \<and>
   call_scheduled \<lparr>result_var = None, e_var = None\<rparr> ErrorLambda = Inl NameError \<and>
   fired \<lparr>on_complete = True, on_error = True, on_cancelled = True\<rparr>
     (Raises (OtherException ''boom'')) False = ([] :: string terminal_callback list)"
  by (simp add: fired_def)

text \<open>
  Claim C8, amended. In every execution at most one terminal callback fires, and none
  that does not match the outcome. When the task function returns normally,
  \<open>on_complete(result)\<close> fires if and only if the cancellation flag is not set at that
  moment and the caller supplied \<open>on_complete\<close>. When it raises
  \<open>TaskCancelledException\<close>, \<open>on_cancelled()\<close> fires if and only if the caller
  supplied \<open>on_cancelled\<close>. Nothing more is said of the path on which the task
  function raises another exception.
\<close>

theorem run_task_amended:
  "length (fired cbs oc cancelled) \<le> 1 \<and>
   set (fired cbs oc cancelled) \<subseteq>
     {case oc of
        Returns r \<Rightarrow> OnComplete r
      | Raises e \<Rightarrow> (if e = TaskCancelledException then OnCancelled else OnError e)} \<and>
   (case oc of
      Returns r \<Rightarrow> (fired cbs oc cancelled = [OnComplete r]) = (\<not> cancelled \<and> on_complete cbs)
    | Raises e \<Rightarrow>
        (if e = TaskCancelledException
         then (fired cbs oc cancelled = [OnCancelled]) = on_cancelled cbs
         else True))"
proof (cases oc)
  case (Returns r)
  then show ?thesis by (simp add: fired_returns)
next
  case (Raises e)
  then show ?thesis
    by (cases "e = TaskCancelledException") (simp_all add: fired_cancelled fired_error)
qed

text \<open>
  Claim C8, amended, at a normal return with the flag unset and only \<open>on_complete\<close>
  supplied: \<open>on_complete\<close> fires with the result.
\<close>

theorem run_task_amended_witness:
  "fired \<lparr>on_complete = True, on_error = False, on_cancelled = False\<rparr>
     (Returns ''out.xlsx'') False = [OnComplete ''out.xlsx'']"
  using run_task_amended [of "\<lparr>on_complete = True, on_error = False, on_cancelled = False\<rparr>"
      "Returns ''out.xlsx''" False]
  by simp

section \<open>Properties of the merge\<close>

subsection \<open>Dictionaries\<close>

lemma dict_get_None_iff: "dict_get d k = None \<longleftrightarrow> k \<notin> set (map fst d)"
  by (induction d) (auto split: if_splits)

lemma dict_get_Some_mem: "dict_get d k = Some v \<Longrightarrow> (k, v) \<in> set d"
  by (induction d) (auto split: if_splits)

lemma dict_get_distinct: "distinct (map fst d) \<Longrightarrow> (k, v) \<in> set d \<Longrightarrow> dict_get d k = Some v"
  by (induction d) force+

lemma dict_get_set: "dict_get (dict_set d k v) k' = (if k' = k then Some v else dict_get d k')"
  by (induction d) auto

lemma dict_set_fresh: "dict_get d k = None \<Longrightarrow> dict_set d k v = d @ [(k, v)]"
  by (induction d) (auto split: if_splits)

lemma dict_set_key_list:
  "map fst (dict_set d k v) = (if k \<in> set (map fst d) then map fst d else map fst d @ [k])"
  by (induction d) force+

lemma dict_set_keys: "set (map fst (dict_set d k v)) = insert k (set (map fst d))"
  unfolding dict_set_key_list by auto

lemma dict_set_distinct: "distinct (map fst d) \<Longrightarrow> distinct (map fst (dict_set d k v))"
proof (induction d)
  case Nil
  then show ?case by simp
next
  case (Cons p d)
  obtain k' v' where p: "p = (k', v')" by (cases p)
  show ?case
  proof (cases "k' = k")
    case True
    then show ?thesis using Cons.prems p by simp
  next
    case False
    have "k' \<notin> set (map fst (dict_set d k v))"
      using Cons.prems False p unfolding dict_set_keys by simp
    then show ?thesis using Cons False p by simp
  qed
qed

lemma all_less_Suc_shift: "(\<forall>i<Suc n. P i) \<longleftrightarrow> P 0 \<and> (\<forall>i<n. P (Suc i))"
  by (metis less_Suc_eq_0_disj)

lemma emit_stepsI_run:
  "\<forall>i<length steps. \<not> tok (polls st + i) \<Longrightarrow> r = Inr st' \<Longrightarrow>
   copies st' = copies st @ concat steps \<Longrightarrow> polls st' = polls st + length steps \<Longrightarrow>
   output_col_idx st' = output_col_idx st + k \<Longrightarrow> emit_steps tok st steps k r"
  by (simp add: emit_steps_def)

lemma emit_stepsI_cancel:
  assumes "r = Inl (TaskCancelledException, st')" "j < length steps" "tok (polls st + j)"
    "\<forall>i<j. \<not> tok (polls st + i)" "copies st' = copies st @ concat (take j steps)"
  shows "emit_steps tok st steps k r"
proof -
  have "\<not> (\<forall>i<length steps. \<not> tok (polls st + i))" using assms(2,3) by blast
  then show ?thesis unfolding emit_steps_def using assms by (simp only: if_False) blast
qed

lemma emit_steps_runD:
  assumes "emit_steps tok st steps k r" "\<forall>i<length steps. \<not> tok (polls st + i)"
  obtains st' where "r = Inr st'" "copies st' = copies st @ concat steps"
    "polls st' = polls st + length steps" "output_col_idx st' = output_col_idx st + k"
  using assms unfolding emit_steps_def by auto

lemma emit_steps_cancelD:
  assumes "emit_steps tok st steps k r" "\<not> (\<forall>i<length steps. \<not> tok (polls st + i))"
  obtains st' j where "r = Inl (TaskCancelledException, st')" "j < length steps"
    "tok (polls st + j)" "\<forall>i<j. \<not> tok (polls st + i)"
    "copies st' = copies st @ concat (take j steps)"
proof -
  from assms have "\<exists>st' j. r = Inl (TaskCancelledException, st') \<and> j < length steps \<and>
      tok (polls st + j) \<and> (\<forall>i<j. \<not> tok (polls st + i)) \<and>
      copies st' = copies st @ concat (take j steps)"
    unfolding emit_steps_def by (simp only: if_False)
  then show ?thesis using that by blast
qed

lemma all_less_add_split:
  "(\<forall>i<a + b. P i) \<longleftrightarrow> (\<forall>i<a. P i) \<and> (\<forall>i<b. P (a + i))" for a b :: nat
proof
  assume h: "\<forall>i<a + b. P i"
  show "(\<forall>i<a. P i) \<and> (\<forall>i<b. P (a + i))" using h by simp
next
  assume h: "(\<forall>i<a. P i) \<and> (\<forall>i<b. P (a + i))"
  show "\<forall>i<a + b. P i"
  proof (intro allI impI)
    fix i assume "i < a + b"
    show "P i"
    proof (cases "i < a")
      case True then show ?thesis using h by simp
    next
      case False
      then have "i - a < b" "i = a + (i - a)" using \<open>i < a + b\<close> by auto
      then show ?thesis using h by metis
    qed
  qed
qed

text \<open>Sequencing: a first phase with steps \<open>s1\<close>, then (if it returns) a second with \<open>s2\<close>.\<close>

lemma emit_steps_seq:
  assumes first: "emit_steps tok st s1 k1 r1"
    and second: "\<And>st1. r1 = Inr st1 \<Longrightarrow>
       emit_steps tok (f st1) s2 k2 (g st1) \<and> polls (f st1) = polls st1 \<and>
       copies (f st1) = copies st1 \<and> output_col_idx (f st1) = output_col_idx st1 + d"
  shows "emit_steps tok st (s1 @ s2) (k1 + d + k2)
           (case r1 of Inl e \<Rightarrow> Inl e | Inr st1 \<Rightarrow> g st1)"
proof (cases "\<forall>i<length s1. \<not> tok (polls st + i)")
  case False
  from emit_steps_cancelD[OF first False] obtain st' j where
    c: "r1 = Inl (TaskCancelledException, st')" "j < length s1" "tok (polls st + j)"
    "\<forall>i<j. \<not> tok (polls st + i)" "copies st' = copies st @ concat (take j s1)" by blast
  show ?thesis
    by (rule emit_stepsI_cancel[where j = j and st' = st']) (use c in simp_all)
next
  case True
  from emit_steps_runD[OF first True] obtain st1 where
    s1: "r1 = Inr st1" "copies st1 = copies st @ concat s1" "polls st1 = polls st + length s1"
    "output_col_idx st1 = output_col_idx st + k1" by blast
  from second[OF s1(1)] have
    e2: "emit_steps tok (f st1) s2 k2 (g st1)" and pf: "polls (f st1) = polls st1"
    and cf: "copies (f st1) = copies st1" and of: "output_col_idx (f st1) = output_col_idx st1 + d"
    by simp_all
  show ?thesis
  proof (cases "\<forall>i<length s2. \<not> tok (polls (f st1) + i)")
    case t2: True
    from emit_steps_runD[OF e2 t2] obtain st' where
      "g st1 = Inr st'" "copies st' = copies (f st1) @ concat s2"
      "polls st' = polls (f st1) + length s2" "output_col_idx st' = output_col_idx (f st1) + k2"
      by blast
    moreover have "\<forall>i<length (s1 @ s2). \<not> tok (polls st + i)"
      using True t2 pf s1(3) by (simp add: all_less_add_split add.assoc)
    ultimately show ?thesis
      by (intro emit_stepsI_run[where st' = st']) (simp_all add: s1 pf cf of)
  next
    case f2: False
    from emit_steps_cancelD[OF e2 f2] obtain st' j where
      c: "g st1 = Inl (TaskCancelledException, st')" "j < length s2" "tok (polls (f st1) + j)"
      "\<forall>i<j. \<not> tok (polls (f st1) + i)" "copies st' = copies (f st1) @ concat (take j s2)" by blast
    have "\<forall>i<length s1 + j. \<not> tok (polls st + i)"
      using True c(4) pf s1(3) by (simp add: all_less_add_split add.assoc)
    moreover have "tok (polls st + (length s1 + j))" using c(3) pf s1(3) by (simp add: add.assoc)
    moreover have "copies st' = copies st @ concat (take (length s1 + j) (s1 @ s2))"
      using c(5) cf s1(2) by simp
    ultimately show ?thesis using c(1,2) s1(1)
      by (intro emit_stepsI_cancel[where j = "length s1 + j" and st' = st']) simp_all
  qed
qed

text \<open>A poll that guards the steps that follow it.\<close>

lemma emit_steps_poll:
  assumes "\<not> tok (polls st) \<Longrightarrow> emit_steps tok st1 steps k r \<and> polls st1 = Suc (polls st) \<and>
             copies st1 = copies st @ first \<and> output_col_idx st1 = output_col_idx st"
  shows "emit_steps tok st (first # steps) k
           (if tok (polls st) then Inl (TaskCancelledException, st\<lparr>polls := Suc (polls st)\<rparr>) else r)"
proof (cases "tok (polls st)")
  case True
  show ?thesis
    by (rule emit_stepsI_cancel[where j = 0 and st' = "st\<lparr>polls := Suc (polls st)\<rparr>"])
      (use True in simp_all)
next
  case nt: False
  from assms[OF nt] have e: "emit_steps tok st1 steps k r" and p: "polls st1 = Suc (polls st)"
    and c: "copies st1 = copies st @ first" and oc: "output_col_idx st1 = output_col_idx st"
    by simp_all
  show ?thesis
  proof (cases "\<forall>i<length steps. \<not> tok (polls st1 + i)")
    case True
    from emit_steps_runD[OF e True] obtain st' where
      "r = Inr st'" "copies st' = copies st1 @ concat steps" "polls st' = polls st1 + length steps"
      "output_col_idx st' = output_col_idx st1 + k" by blast
    moreover have "\<forall>i<length (first # steps). \<not> tok (polls st + i)"
      using True nt p by (simp add: all_less_Suc_shift)
    ultimately show ?thesis using nt
      by (intro emit_stepsI_run[where st' = st']) (simp_all add: p c oc)
  next
    case False
    from emit_steps_cancelD[OF e False] obtain st' j where
      x: "r = Inl (TaskCancelledException, st')" "j < length steps" "tok (polls st1 + j)"
      "\<forall>i<j. \<not> tok (polls st1 + i)" "copies st' = copies st1 @ concat (take j steps)" by blast
    have "\<forall>i<Suc j. \<not> tok (polls st + i)" using x(4) nt p by (simp add: all_less_Suc_shift)
    moreover have "tok (polls st + Suc j)" using x(3) p by simp
    moreover have "copies st' = copies st @ concat (take (Suc j) (first # steps))"
      using x(5) c by simp
    ultimately show ?thesis using x(1,2) nt
      by (intro emit_stepsI_cancel[where j = "Suc j" and st' = st']) simp_all
  qed
qed

lemma emit_rows_steps:
  "emit_steps tok st (row_steps sh fi src (output_col_idx st) frm) 0
     (emit_rows tok sh fi src frm st)"
proof (induction frm arbitrary: st)
  case Nil
  show ?case by (rule emit_stepsI_run[where st' = st]) (simp_all add: row_steps_def row_copies_def)
next
  case (Cons p frm)
  obtain sr tr where p: "p = (sr, tr)" by (cases p)
  let ?c = "((fi, sr, src), (tr, output_col_idx st), cell sh sr src)"
  let ?st1 = "st\<lparr>polls := Suc (polls st), copies := copies st @ [?c]\<rparr>"
  have "emit_steps tok st ([?c] # row_steps sh fi src (output_col_idx st) frm) 0
          (if tok (polls st) then Inl (TaskCancelledException, st\<lparr>polls := Suc (polls st)\<rparr>)
           else emit_rows tok sh fi src frm ?st1)"
    by (rule emit_steps_poll[where ?st1.0 = ?st1]) (use Cons.IH[of ?st1] in simp)
  then show ?case by (simp add: p row_steps_def row_copies_def)
qed

lemma concat_row_steps [simp]: "concat (row_steps sh fi src oc frm) = row_copies sh fi src oc frm"
  by (simp add: row_steps_def concat_map_singleton)

lemma concat_column_steps: "concat (column_steps sh frm oc cols) = column_copies sh frm oc cols"
  by (induction sh frm oc cols rule: column_steps.induct) (auto split: option.splits)

lemma concat_file_steps: "concat (file_steps sheets cbf rm oc files) = file_copies sheets cbf rm oc files"
  by (induction files arbitrary: oc) (simp_all add: concat_column_steps)

lemma emit_columns_steps:
  "emit_steps tok st (column_steps sh frm (output_col_idx st) cols)
     (length (resolved_columns sh cols)) (emit_columns tok sh frm total_cols cols st)"
proof (induction cols arbitrary: st)
  case Nil
  show ?case by (rule emit_stepsI_run[where st' = st]) (simp_all add: resolved_columns_def)
next
  case (Cons p cols)
  obtain fi cname where p: "p = (fi, cname)" by (cases p)
  let ?st1 = "st\<lparr>polls := Suc (polls st), processed_cols := Suc (processed_cols st)\<rparr>"
  show ?case
  proof (cases "dict_get (column_map_of sh) cname")
    case None
    have k: "length (resolved_columns sh (p # cols)) = length (resolved_columns sh cols)"
      using p None by (simp add: resolved_columns_def dict_has_def)
    have "emit_steps tok st ([] # column_steps sh frm (output_col_idx st) cols)
            (length (resolved_columns sh cols))
            (if tok (polls st) then Inl (TaskCancelledException, st\<lparr>polls := Suc (polls st)\<rparr>)
             else emit_columns tok sh frm total_cols cols ?st1)"
      by (rule emit_steps_poll[where ?st1.0 = ?st1]) (use Cons.IH[of ?st1] in simp)
    then show ?thesis unfolding k using p None by (cases "tok (polls st)") simp_all
  next
    case (Some src)
    let ?hdr = "((fi, 1, src), (1, output_col_idx st), cell sh 1 src)"
    let ?st2 = "?st1\<lparr>copies := copies ?st1 @ [?hdr]\<rparr>"
    let ?after = "\<lambda>st3. st3\<lparr>progress := progress st3 @ [(processed_cols st3, total_cols)],
                            output_col_idx := Suc (output_col_idx st3)\<rparr>"
    have k: "length (resolved_columns sh (p # cols)) = 0 + 1 + length (resolved_columns sh cols)"
      using p Some by (simp add: resolved_columns_def dict_has_def)
    have body: "emit_steps tok ?st2
            (row_steps sh fi src (output_col_idx st) frm @ column_steps sh frm (Suc (output_col_idx st)) cols)
            (0 + 1 + length (resolved_columns sh cols))
            (case emit_rows tok sh fi src frm ?st2 of
               Inl e \<Rightarrow> Inl e
             | Inr st3 \<Rightarrow> emit_columns tok sh frm total_cols cols (?after st3))"
    proof (rule emit_steps_seq[where f = ?after])
      show "emit_steps tok ?st2 (row_steps sh fi src (output_col_idx st) frm) 0
              (emit_rows tok sh fi src frm ?st2)"
        using emit_rows_steps[of tok ?st2 sh fi src frm] by simp
    next
      fix st3 assume r: "emit_rows tok sh fi src frm ?st2 = Inr st3"
      have "output_col_idx st3 = output_col_idx st"
      proof (cases "\<forall>i<length (row_steps sh fi src (output_col_idx ?st2) frm). \<not> tok (polls ?st2 + i)")
        case True
        from emit_steps_runD[OF emit_rows_steps[of tok ?st2 sh fi src frm] True] r
        show ?thesis by auto
      next
        case False
        from emit_steps_cancelD[OF emit_rows_steps[of tok ?st2 sh fi src frm] False] r
        show ?thesis by auto
      qed
      then show "emit_steps tok (?after st3) (column_steps sh frm (Suc (output_col_idx st)) cols)
                   (length (resolved_columns sh cols))
                   (emit_columns tok sh frm total_cols cols (?after st3)) \<and>
                 polls (?after st3) = polls st3 \<and> copies (?after st3) = copies st3 \<and>
                 output_col_idx (?after st3) = output_col_idx st3 + 1"
        using Cons.IH[of "?after st3"] by simp
    qed
    have "emit_steps tok st
            ([?hdr] # row_steps sh fi src (output_col_idx st) frm @
               column_steps sh frm (Suc (output_col_idx st)) cols)
            (0 + 1 + length (resolved_columns sh cols))
            (if tok (polls st) then Inl (TaskCancelledException, st\<lparr>polls := Suc (polls st)\<rparr>)
             else (case emit_rows tok sh fi src frm ?st2 of
               Inl e \<Rightarrow> Inl e
             | Inr st3 \<Rightarrow> emit_columns tok sh frm total_cols cols (?after st3)))"
      by (rule emit_steps_poll[where ?st1.0 = ?st2]) (use body in simp)
    then show ?thesis unfolding k using p Some by (cases "tok (polls st)") (simp_all add: Let_def)
  qed
qed

lemma emit_files_steps:
  "files_ready sheets rm files \<Longrightarrow>
   emit_steps tok st (file_steps sheets cbf rm (output_col_idx st) files)
     (file_resolved sheets cbf files) (emit_files tok sheets cbf rm total_cols files st)"
proof (induction files arbitrary: st)
  case Nil
  show ?case by (rule emit_stepsI_run[where st' = st]) simp_all
next
  case (Cons fi files)
  from Cons.prems obtain frm where
    g: "dict_get rm fi = Some frm" "fi < length sheets"
    and rest: "files_ready sheets rm files"
    by (auto simp: files_ready_def dict_has_def)
  let ?sh = "sheets ! fi"
  let ?cols = "dict_list cbf fi"
  have dl: "dict_list rm fi = frm" using g by (simp add: dict_list_def)
  have "emit_steps tok st
          (column_steps ?sh frm (output_col_idx st) ?cols @
           file_steps sheets cbf rm (output_col_idx st + length (resolved_columns ?sh ?cols)) files)
          (length (resolved_columns ?sh ?cols) + 0 + file_resolved sheets cbf files)
          (case emit_columns tok ?sh frm total_cols ?cols st of
             Inl e \<Rightarrow> Inl e
           | Inr st' \<Rightarrow> emit_files tok sheets cbf rm total_cols files st')"
  proof (rule emit_steps_seq[where f = "\<lambda>s. s"])
    show "emit_steps tok st (column_steps ?sh frm (output_col_idx st) ?cols)
            (length (resolved_columns ?sh ?cols)) (emit_columns tok ?sh frm total_cols ?cols st)"
      by (rule emit_columns_steps)
  next
    fix st1 assume r: "emit_columns tok ?sh frm total_cols ?cols st = Inr st1"
    have "output_col_idx st1 = output_col_idx st + length (resolved_columns ?sh ?cols)"
    proof (cases "\<forall>i<length (column_steps ?sh frm (output_col_idx st) ?cols). \<not> tok (polls st + i)")
      case True
      from emit_steps_runD[OF emit_columns_steps[of tok st ?sh frm ?cols total_cols] True] r
      show ?thesis by auto
    next
      case False
      from emit_steps_cancelD[OF emit_columns_steps[of tok st ?sh frm ?cols total_cols] False] r
      show ?thesis by auto
    qed
    then show "emit_steps tok st1
                 (file_steps sheets cbf rm (output_col_idx st + length (resolved_columns ?sh ?cols)) files)
                 (file_resolved sheets cbf files) (emit_files tok sheets cbf rm total_cols files st1) \<and>
               polls st1 = polls st1 \<and> copies st1 = copies st1 \<and>
               output_col_idx st1 = output_col_idx st1 + 0"
      using Cons.IH[OF rest, of st1] by simp
  qed
  then show ?case using g by (simp add: dl)
qed

lemma columns_by_file_snoc:
  "columns_by_file (sel @ [(fi, cname)]) =
     dict_set (columns_by_file sel) fi (dict_list (columns_by_file sel) fi @ [(fi, cname)])"
  by (simp add: columns_by_file_def)

lemma columns_by_file_distinct: "distinct (map fst (columns_by_file sel))"
proof (induction sel rule: rev_induct)
  case Nil
  show ?case by (simp add: columns_by_file_def)
next
  case (snoc p sel)
  obtain fi cname where p: "p = (fi, cname)" by (cases p)
  show ?case unfolding p columns_by_file_snoc by (rule dict_set_distinct[OF snoc.IH])
qed

lemma columns_by_file_get:
  "dict_get (columns_by_file sel) fi =
     (if fi \<in> set (map fst sel) then Some (filter (\<lambda>(f, cname). f = fi) sel) else None)"
proof (induction sel rule: rev_induct)
  case Nil
  show ?case by (simp add: columns_by_file_def)
next
  case (snoc p sel)
  obtain f cname where p: "p = (f, cname)" by (cases p)
  show ?case
  proof (cases "fi = f")
    case True
    have "filter (\<lambda>(fa, cname). fa = f) sel = []" if "f \<notin> fst ` set sel"
      using that by (force simp: filter_empty_conv)
    then show ?thesis unfolding p columns_by_file_snoc dict_get_set using snoc.IH True
      by (auto simp: dict_list_def)
  next
    case False
    then show ?thesis unfolding p columns_by_file_snoc dict_get_set using snoc.IH by auto
  qed
qed

lemma columns_by_file_keys: "set (dict_keys (columns_by_file sel)) = set (map fst sel)"
proof -
  have "fi \<in> set (map fst (columns_by_file sel)) \<longleftrightarrow> fi \<in> set (map fst sel)" for fi
    using dict_get_None_iff[of "columns_by_file sel" fi] columns_by_file_get[of sel fi]
    by (auto split: if_splits)
  then show ?thesis unfolding dict_keys_def by blast
qed

lemma file_row_mapping_index:
  "file_row_mapping sheets rmap refs fi cols = Inr m \<Longrightarrow> fi < length sheets"
  by (auto simp: file_row_mapping_def split: option.splits if_splits)

lemma build_row_mapping_get:
  assumes "build_row_mapping sheets rmap refs items acc = Inr rm" "distinct (map fst items)"
  shows "dict_get rm fi =
           (case dict_get items fi of
              None \<Rightarrow> dict_get acc fi
            | Some cols \<Rightarrow> (case file_row_mapping sheets rmap refs fi cols of
                             Inr m \<Rightarrow> Some m | Inl e \<Rightarrow> None)) \<and>
         (\<forall>cols. dict_get items fi = Some cols \<longrightarrow>
             (\<exists>m. file_row_mapping sheets rmap refs fi cols = Inr m))"
  using assms
proof (induction items arbitrary: acc)
  case Nil
  then show ?case by simp
next
  case (Cons p items)
  obtain f cols where p: "p = (f, cols)" by (cases p)
  from Cons.prems(1) obtain m where
    m: "file_row_mapping sheets rmap refs f cols = Inr m"
    and rest: "build_row_mapping sheets rmap refs items (dict_set acc f m) = Inr rm"
    unfolding p by (auto split: sum.splits)
  have d: "distinct (map fst items)" and nf: "f \<notin> set (map fst items)"
    using Cons.prems(2) p by auto
  note IH = Cons.IH[OF rest d]
  show ?case
  proof (cases "fi = f")
    case True
    have "dict_get items f = None" using nf by (simp add: dict_get_None_iff)
    then show ?thesis using IH True m p by (simp add: dict_get_set)
  next
    case False
    then show ?thesis using IH p by (auto simp: dict_get_set split: option.splits)
  qed
qed

lemma build_row_mapping_ready:
  assumes "build_row_mapping sheets rmap refs (columns_by_file sel) [] = Inr rm"
  shows "files_ready sheets rm (sort (dict_keys (columns_by_file sel)))"
proof -
  let ?cbf = "columns_by_file sel"
  have "fi < length sheets \<and> dict_has rm fi" if "fi \<in> set (dict_keys ?cbf)" for fi
  proof -
    from that obtain cols where c: "dict_get ?cbf fi = Some cols"
      using dict_get_None_iff[of ?cbf fi] by (auto simp: dict_keys_def)
    from build_row_mapping_get[OF assms columns_by_file_distinct, of fi] c
    obtain m where "file_row_mapping sheets rmap refs fi cols = Inr m" "dict_get rm fi = Some m"
      by auto
    then show ?thesis using file_row_mapping_index by (auto simp: dict_has_def)
  qed
  then show ?thesis by (simp add: files_ready_def list_all_iff)
qed

lemma concat_merge_steps: "concat (merge_steps sheets sel rm) = merged_copies sheets sel rm"
  by (simp add: merge_steps_def merged_copies_def concat_file_steps)

lemma concat_take_prefix: "concat (take j xs) = take (length (concat (take j xs))) (concat xs)"
proof -
  have "concat xs = concat (take j xs) @ concat (drop j xs)"
    by (metis append_take_drop_id concat_append)
  then show ?thesis by simp
qed

lemma first_true_unique:
  "tok j \<Longrightarrow> \<forall>i<j. \<not> tok i \<Longrightarrow> tok j' \<Longrightarrow> \<forall>i<j'. \<not> tok i \<Longrightarrow> j = j'" for j j' :: nat
  by (meson nat_neq_iff)

lemma merge_emit_steps:
  assumes "build_row_mapping sheets rmap refs (columns_by_file sel) [] = Inr rm"
  shows "emit_steps tok initial_state (merge_steps sheets sel rm)
           (file_resolved sheets (columns_by_file sel) (sort (dict_keys (columns_by_file sel))))
           (emit_files tok sheets (columns_by_file sel) rm (length sel)
              (sort (dict_keys (columns_by_file sel))) initial_state)"
  using emit_files_steps[OF build_row_mapping_ready[OF assms], of tok initial_state
      "columns_by_file sel" "length sel"]
  by (simp add: merge_steps_def initial_state_def)

lemma merge_run:
  assumes "build_references sheets rmap [] = Inr refs"
    and "build_row_mapping sheets rmap refs (columns_by_file sel) [] = Inr rm"
    and "\<forall>i<merge_polls sheets sel rm. \<not> tok i"
  shows "outcome (merge_multiple_files sheets sel rmap path tok) = Inr path"
    and "saved_file (merge_multiple_files sheets sel rmap path tok) =
           Some (sheet_of_copies (merged_copies sheets sel rm))"
    and "unclosed_workbooks (merge_multiple_files sheets sel rmap path tok) = []"
    and "copies (final_state (merge_multiple_files sheets sel rmap path tok)) = merged_copies sheets sel rm"
proof -
  have t: "\<forall>i<length (merge_steps sheets sel rm). \<not> tok (polls initial_state + i)"
    using assms(3) by (simp add: initial_state_def merge_polls_def)
  from emit_steps_runD[OF merge_emit_steps[OF assms(2)] t] obtain st' where
    r: "emit_files tok sheets (columns_by_file sel) rm (length sel)
          (sort (dict_keys (columns_by_file sel))) initial_state = Inr st'"
    and c: "copies st' = copies initial_state @ concat (merge_steps sheets sel rm)" by blast
  have c': "copies st' = merged_copies sheets sel rm"
    using c by (simp add: initial_state_def concat_merge_steps)
  show "outcome (merge_multiple_files sheets sel rmap path tok) = Inr path"
    and "saved_file (merge_multiple_files sheets sel rmap path tok) =
           Some (sheet_of_copies (merged_copies sheets sel rm))"
    and "unclosed_workbooks (merge_multiple_files sheets sel rmap path tok) = []"
    and "copies (final_state (merge_multiple_files sheets sel rmap path tok)) = merged_copies sheets sel rm"
    using assms(1,2) r c' by (simp_all add: merge_multiple_files_def Let_def)
qed

lemma merge_cancel:
  assumes "build_references sheets rmap [] = Inr refs"
    and "build_row_mapping sheets rmap refs (columns_by_file sel) [] = Inr rm"
    and "\<not> (\<forall>i<merge_polls sheets sel rm. \<not> tok i)"
  shows "outcome (merge_multiple_files sheets sel rmap path tok) = Inl TaskCancelledException"
    and "saved_file (merge_multiple_files sheets sel rmap path tok) = None"
    and "unclosed_workbooks (merge_multiple_files sheets sel rmap path tok) = [0..<length sheets]"
    and "\<exists>m. copies (final_state (merge_multiple_files sheets sel rmap path tok)) =
              take m (merged_copies sheets sel rm)"
    and "\<exists>j. tok j \<and> (\<forall>i<j. \<not> tok i) \<and>
           copies (final_state (merge_multiple_files sheets sel rmap path tok)) =
             concat (take j (merge_steps sheets sel rm))"
proof -
  have t: "\<not> (\<forall>i<length (merge_steps sheets sel rm). \<not> tok (polls initial_state + i))"
    using assms(3) by (simp add: initial_state_def merge_polls_def)
  from emit_steps_cancelD[OF merge_emit_steps[OF assms(2)] t] obtain st' j where
    r: "emit_files tok sheets (columns_by_file sel) rm (length sel)
          (sort (dict_keys (columns_by_file sel))) initial_state = Inl (TaskCancelledException, st')"
    and j: "tok (polls initial_state + j)" "\<forall>i<j. \<not> tok (polls initial_state + i)"
    and c: "copies st' = copies initial_state @ concat (take j (merge_steps sheets sel rm))" by blast
  have c': "copies st' = concat (take j (merge_steps sheets sel rm))"
    using c by (simp add: initial_state_def)
  have fs: "copies (final_state (merge_multiple_files sheets sel rmap path tok)) =
              concat (take j (merge_steps sheets sel rm))"
    using assms(1,2) r c' by (simp add: merge_multiple_files_def Let_def)
  show "outcome (merge_multiple_files sheets sel rmap path tok) = Inl TaskCancelledException"
    and "saved_file (merge_multiple_files sheets sel rmap path tok) = None"
    and "unclosed_workbooks (merge_multiple_files sheets sel rmap path tok) = [0..<length sheets]"
    using assms(1,2) r by (simp_all add: merge_multiple_files_def Let_def)
  show "\<exists>m. copies (final_state (merge_multiple_files sheets sel rmap path tok)) =
              take m (merged_copies sheets sel rm)"
    using fs concat_take_prefix[of j "merge_steps sheets sel rm"]
    by (metis concat_merge_steps)
  show "\<exists>j. tok j \<and> (\<forall>i<j. \<not> tok i) \<and>
           copies (final_state (merge_multiple_files sheets sel rmap path tok)) =
             concat (take j (merge_steps sheets sel rm))"
    using fs j by (auto simp: initial_state_def)
qed

lemma merge_cancel_at:
  assumes "build_references sheets rmap [] = Inr refs"
    and "build_row_mapping sheets rmap refs (columns_by_file sel) [] = Inr rm"
    and "j < merge_polls sheets sel rm" and "tok j" and "\<forall>i<j. \<not> tok i"
  shows "copies (final_state (merge_multiple_files sheets sel rmap path tok)) =
           concat (take j (merge_steps sheets sel rm))"
proof -
  have n: "\<not> (\<forall>i<merge_polls sheets sel rm. \<not> tok i)" using assms(3,4) by blast
  from merge_cancel(5)[OF assms(1,2) n, of path] obtain j' where
    j': "tok j'" "\<forall>i<j'. \<not> tok i"
    and c: "copies (final_state (merge_multiple_files sheets sel rmap path tok)) =
             concat (take j' (merge_steps sheets sel rm))" by blast
  have "j = j'" using first_true_unique[OF assms(4,5) j'] .
  then show ?thesis using c by simp
qed

lemma merge_failed:
  assumes "build_references sheets rmap [] = Inl e \<or>
           (\<exists>refs. build_references sheets rmap [] = Inr refs \<and>
              build_row_mapping sheets rmap refs (columns_by_file sel) [] = Inl e)"
  shows "merge_multiple_files sheets sel rmap path tok =
           \<lparr>outcome = Inl e, saved_file = None, unclosed_workbooks = [0..<length sheets],
            final_state = initial_state\<rparr>"
  using assms by (auto simp: merge_multiple_files_def Let_def)

lemma first_occurrences_snoc:
  "first_occurrences (xs @ [x]) =
     (if x \<in> set xs then first_occurrences xs else first_occurrences xs @ [x])"
  by (simp add: first_occurrences_def)

lemma first_occurrences_set [simp]: "set (first_occurrences xs) = set xs"
  by (simp add: first_occurrences_def)

lemma first_occurrences_distinct [simp]: "distinct (first_occurrences xs)"
  by (simp add: first_occurrences_def)

lemma first_row_snoc_old: "k \<in> set ks \<Longrightarrow> first_row (ks @ [x]) k = first_row ks k"
  by (simp add: first_row_def takeWhile_append1)

lemma first_row_snoc_new:
  assumes "x \<notin> set ks"
  shows "first_row (ks @ [x]) x = 2 + length ks"
proof -
  have "takeWhile (\<lambda>y. y \<noteq> x) (ks @ [x]) = ks @ takeWhile (\<lambda>y. y \<noteq> x) [x]"
    by (rule takeWhile_append2) (use assms in auto)
  then show ?thesis by (simp add: first_row_def)
qed

lemma first_row_nth: "k \<in> set ks \<Longrightarrow> first_row ks k - 2 < length ks \<and> ks ! (first_row ks k - 2) = k"
proof -
  assume k: "k \<in> set ks"
  have "takeWhile (\<lambda>x. x \<noteq> k) ks \<noteq> ks"
    using k by (simp add: takeWhile_eq_all_conv)
  then have "length (takeWhile (\<lambda>x. x \<noteq> k) ks) \<noteq> length ks"
    by (metis takeWhile_eq_take take_all order_refl)
  then have l: "length (takeWhile (\<lambda>x. x \<noteq> k) ks) < length ks"
    using length_takeWhile_le[of "\<lambda>x. x \<noteq> k" ks] by simp
  from nth_length_takeWhile[OF l] show ?thesis using l by (simp add: first_row_def)
qed

lemma first_row_least: "i < first_row ks k - 2 \<Longrightarrow> ks ! i \<noteq> k"
  using nth_mem[of i "takeWhile (\<lambda>x. x \<noteq> k) ks"] takeWhile_nth[of i "\<lambda>x. x \<noteq> k" ks]
  by (auto simp: first_row_def dest: set_takeWhileD)

lemma first_row_inj: "k \<in> set ks \<Longrightarrow> k' \<in> set ks \<Longrightarrow> first_row ks k = first_row ks k' \<Longrightarrow> k = k'"
  using first_row_nth by metis

lemma first_rows_get:
  "dict_get (first_rows ks) k = (if k \<in> set ks then Some (first_row ks k) else None)"
proof -
  have "dict_get (map (\<lambda>k. (k, f k)) xs) k = (if k \<in> set xs then Some (f k) else None)"
    for xs :: "cell_value list" and f :: "cell_value \<Rightarrow> nat"
    by (induction xs) auto
  then show ?thesis by (simp add: first_rows_def)
qed

lemma first_rows_has: "dict_has (first_rows ks) k \<longleftrightarrow> k \<in> set ks"
  by (simp add: dict_has_def first_rows_get)

lemma keys_upto_Suc: "1 \<le> m \<Longrightarrow> keys_upto sh col (Suc m) = keys_upto sh col m @ [cell sh (Suc m) col]"
  by (simp add: keys_upto_def)

lemma length_keys_upto: "length (keys_upto sh col m) = m - 1"
  by (auto simp: keys_upto_def)

lemma first_rows_snoc:
  "first_rows (ks @ [x]) =
     (if x \<in> set ks then first_rows ks else first_rows ks @ [(x, 2 + length ks)])"
  by (simp add: first_rows_def first_occurrences_snoc first_row_snoc_old first_row_snoc_new)

lemma file_keys_upto:
  "foldl (\<lambda>file_key_to_row row_idx.
            let key_value = cell sh row_idx col
            in if \<not> dict_has file_key_to_row key_value
               then dict_set file_key_to_row key_value row_idx
               else file_key_to_row)
     [] [2..<Suc m] = first_rows (keys_upto sh col m)"
proof (induction m)
  case 0
  show ?case by (simp add: keys_upto_def first_rows_def first_occurrences_def)
next
  case (Suc m)
  show ?case
  proof (cases "1 \<le> m")
    case False
    then show ?thesis by (simp add: keys_upto_def first_rows_def first_occurrences_def)
  next
    case True
    then have u: "[2..<Suc (Suc m)] = [2..<Suc m] @ [Suc m]" by simp
    show ?thesis
      unfolding u foldl_append Suc.IH keys_upto_Suc[OF True] first_rows_snoc
      using True by (simp add: Let_def first_rows_has length_keys_upto dict_set_fresh first_rows_get)
  qed
qed

lemma file_keys_closed: "file_keys sh col = first_rows (column_keys sh col)"
  unfolding file_keys_def column_keys_def using file_keys_upto[of sh col "max_row sh"]
  by (simp add: keys_upto_def)

lemma scan_keys_upto:
  "foldl (\<lambda>(keys, key_to_row) row_idx.
              let key_value = cell sh row_idx col
              in if \<not> dict_has key_to_row key_value
                 then (keys @ [key_value], dict_set key_to_row key_value row_idx)
                 else (keys, key_to_row))
       ([], []) [2..<Suc m] =
     (first_occurrences (keys_upto sh col m), first_rows (keys_upto sh col m))"
proof (induction m)
  case 0
  show ?case by (simp add: keys_upto_def first_rows_def first_occurrences_def)
next
  case (Suc m)
  show ?case
  proof (cases "1 \<le> m")
    case False
    then show ?thesis by (simp add: keys_upto_def first_rows_def first_occurrences_def)
  next
    case True
    then have u: "[2..<Suc (Suc m)] = [2..<Suc m] @ [Suc m]" by simp
    show ?thesis
      unfolding u foldl_append Suc.IH keys_upto_Suc[OF True] first_rows_snoc first_occurrences_snoc
      using True by (simp add: Let_def first_rows_has length_keys_upto dict_set_fresh first_rows_get)
  qed
qed

lemma scan_keys_closed:
  "scan_keys sh col = (first_occurrences (column_keys sh col), first_rows (column_keys sh col))"
  unfolding scan_keys_def column_keys_def using scan_keys_upto[of sh col "max_row sh"]
  by (simp add: keys_upto_def)

lemma walk_pairs_Nil [simp]: "walk_pairs ks t0 [] = []"
  by (simp add: walk_pairs_def)

lemma walk_pairs_Cons:
  "walk_pairs ks t0 (k # rest) =
     (if k \<in> set ks then [(first_row ks k, t0)] else []) @ walk_pairs ks (Suc t0) rest"
  by (simp add: walk_pairs_def)

lemma walk_pairs_rows: "set (map fst (walk_pairs ks t0 canonical)) = first_row ks ` (set canonical \<inter> set ks)"
  by (induction canonical arbitrary: t0) (auto simp: walk_pairs_Cons)

lemma map_reference_keys_Cons:
  "map_reference_keys fk (k # rest) (m, t) =
     map_reference_keys fk rest
       ((case dict_get fk k of Some r \<Rightarrow> dict_set m r t | None \<Rightarrow> m), Suc t)"
  by (simp add: map_reference_keys_def)

lemma map_reference_keys_closed:
  assumes "distinct canonical"
    and "\<forall>k\<in>set canonical. k \<in> set ks \<longrightarrow> first_row ks k \<notin> set (map fst m0)"
  shows "map_reference_keys (first_rows ks) canonical (m0, t0) =
           (m0 @ walk_pairs ks t0 canonical, t0 + length canonical)"
  using assms
proof (induction canonical arbitrary: m0 t0)
  case Nil
  show ?case by (simp add: map_reference_keys_def)
next
  case (Cons k rest)
  show ?case
  proof (cases "k \<in> set ks")
    case False
    then show ?thesis
      unfolding map_reference_keys_Cons walk_pairs_Cons using Cons.IH[of m0 "Suc t0"] Cons.prems
      by (simp add: first_rows_get)
  next
    case True
    have fresh: "dict_get m0 (first_row ks k) = None"
      using Cons.prems(2) True by (simp add: dict_get_None_iff)
    let ?m1 = "m0 @ [(first_row ks k, t0)]"
    have "\<forall>k'\<in>set rest. k' \<in> set ks \<longrightarrow> first_row ks k' \<notin> set (map fst ?m1)"
    proof (intro ballI impI)
      fix k' assume k': "k' \<in> set rest" "k' \<in> set ks"
      then have "k' \<noteq> k" using Cons.prems(1) by auto
      then have "first_row ks k' \<noteq> first_row ks k" using first_row_inj[OF k'(2) True] by blast
      then show "first_row ks k' \<notin> set (map fst ?m1)" using Cons.prems(2) k' by auto
    qed
    from Cons.IH[OF _ this, of "Suc t0"] Cons.prems(1)
    show ?thesis unfolding map_reference_keys_Cons walk_pairs_Cons
      using True fresh by (simp add: first_rows_get dict_set_fresh)
  qed
qed

lemma own_pairs_Nil [simp]: "own_pairs ks t0 [] = []"
  by (simp add: own_pairs_def)

lemma own_pairs_Cons: "own_pairs ks t0 (k # rest) = (first_row ks k, t0) # own_pairs ks (Suc t0) rest"
  by (simp add: own_pairs_def)

lemma own_pairs_rows: "set (map fst (own_pairs ks t0 extras)) = first_row ks ` set extras"
  by (induction extras arbitrary: t0) (auto simp: own_pairs_Cons)

lemma append_own_keys_closed:
  assumes "distinct ys" "set ys \<subseteq> set ks"
    and "\<forall>k\<in>set ys. k \<notin> set canonical \<longrightarrow> first_row ks k \<notin> set (map fst m0)"
    and "\<forall>k. dict_has ref_k2r k \<longleftrightarrow> k \<in> set canonical"
  shows "append_own_keys ref_k2r (map (\<lambda>k. (k, first_row ks k)) ys) (m0, t0) =
           (m0 @ own_pairs ks t0 [k \<leftarrow> ys. k \<notin> set canonical],
            t0 + length [k \<leftarrow> ys. k \<notin> set canonical])"
  using assms(1,2,3)
proof (induction ys arbitrary: m0 t0)
  case Nil
  show ?case by (simp add: append_own_keys_def)
next
  case (Cons k rest)
  have step: "append_own_keys ref_k2r (map (\<lambda>k. (k, first_row ks k)) (k # rest)) (m0, t0) =
        append_own_keys ref_k2r (map (\<lambda>k. (k, first_row ks k)) rest)
          (if k \<notin> set canonical then (dict_set m0 (first_row ks k) t0, Suc t0) else (m0, t0))"
    using assms(4) by (simp add: append_own_keys_def)
  have d: "distinct rest" and sub: "set rest \<subseteq> set ks" and kin: "k \<in> set ks"
    using Cons.prems by auto
  show ?case
  proof (cases "k \<in> set canonical")
    case True
    have "\<forall>k\<in>set rest. k \<notin> set canonical \<longrightarrow> first_row ks k \<notin> set (map fst m0)"
      using Cons.prems(3) by simp
    from Cons.IH[OF d sub this, of t0] show ?thesis unfolding step using True by simp
  next
    case False
    have fresh: "dict_get m0 (first_row ks k) = None"
      using Cons.prems(3) False by (simp add: dict_get_None_iff)
    let ?m1 = "m0 @ [(first_row ks k, t0)]"
    have "\<forall>k'\<in>set rest. k' \<notin> set canonical \<longrightarrow> first_row ks k' \<notin> set (map fst ?m1)"
    proof (intro ballI impI)
      fix k' assume k': "k' \<in> set rest" "k' \<notin> set canonical"
      then have "k' \<noteq> k" "k' \<in> set ks" using Cons.prems(1) sub by auto
      then have "first_row ks k' \<noteq> first_row ks k" using first_row_inj[OF _ kin] by blast
      then show "first_row ks k' \<notin> set (map fst ?m1)" using Cons.prems(3) k' by auto
    qed
    from Cons.IH[OF d sub this, of "Suc t0"] show ?thesis unfolding step
      using False fresh by (simp add: dict_set_fresh own_pairs_Cons)
  qed
qed

lemma spec_row_mapping_pairs:
  "spec_row_mapping canonical ks =
     walk_pairs ks 2 canonical @
     own_pairs ks (2 + length canonical) [k \<leftarrow> first_occurrences ks. k \<notin> set canonical]"
  by (simp add: spec_row_mapping_def walk_pairs_def own_pairs_def)

lemma aligned_mapping_closed:
  "aligned_mapping (scan_keys ref_sheet ref_col) sh col =
     spec_row_mapping (first_occurrences (column_keys ref_sheet ref_col)) (column_keys sh col)"
proof -
  let ?canonical = "first_occurrences (column_keys ref_sheet ref_col)"
  let ?ks = "column_keys sh col"
  have w: "map_reference_keys (first_rows ?ks) ?canonical ([], 2) =
             ([] @ walk_pairs ?ks 2 ?canonical, 2 + length ?canonical)"
    by (rule map_reference_keys_closed) simp_all
  have fresh: "\<forall>k\<in>set (first_occurrences ?ks). k \<notin> set ?canonical \<longrightarrow>
                 first_row ?ks k \<notin> set (map fst (walk_pairs ?ks 2 ?canonical))"
  proof (intro ballI impI)
    fix k assume k: "k \<in> set (first_occurrences ?ks)" "k \<notin> set ?canonical"
    show "first_row ?ks k \<notin> set (map fst (walk_pairs ?ks 2 ?canonical))"
    proof
      assume "first_row ?ks k \<in> set (map fst (walk_pairs ?ks 2 ?canonical))"
      then obtain k' where "k' \<in> set ?canonical" "k' \<in> set ?ks" "first_row ?ks k = first_row ?ks k'"
        unfolding walk_pairs_rows by auto
      then show False using first_row_inj[of k ?ks k'] k by auto
    qed
  qed
  have o: "append_own_keys (first_rows (column_keys ref_sheet ref_col))
             (map (\<lambda>k. (k, first_row ?ks k)) (first_occurrences ?ks))
             (walk_pairs ?ks 2 ?canonical, 2 + length ?canonical) =
           (walk_pairs ?ks 2 ?canonical @
              own_pairs ?ks (2 + length ?canonical) [k \<leftarrow> first_occurrences ?ks. k \<notin> set ?canonical],
            2 + length ?canonical + length [k \<leftarrow> first_occurrences ?ks. k \<notin> set ?canonical])"
    by (rule append_own_keys_closed) (use fresh in \<open>simp_all add: first_rows_has\<close>)
  show ?thesis
    unfolding aligned_mapping_def scan_keys_closed file_keys_closed Let_def fst_conv snd_conv w
      spec_row_mapping_pairs
    using o by (simp add: first_rows_def)
qed

lemma direct_mapping_upto:
  "foldl (\<lambda>(file_row_mapping, target_row) row_idx.
            (dict_set file_row_mapping row_idx target_row, Suc target_row))
     ([], 2) [2..<Suc m] = (map (\<lambda>r. (r, r)) [2..<Suc m], max 2 (Suc m))"
proof (induction m)
  case 0
  show ?case by simp
next
  case (Suc m)
  show ?case
  proof (cases "1 \<le> m")
    case False
    then show ?thesis by simp
  next
    case True
    then have u: "[2..<Suc (Suc m)] = [2..<Suc m] @ [Suc m]" by simp
    have fresh: "dict_get (map (\<lambda>r. (r, r)) [2..<Suc m]) (Suc m) = None"
      by (simp add: dict_get_None_iff)
    show ?thesis unfolding u foldl_append Suc.IH map_append
      using True fresh by (simp add: dict_set_fresh max_def)
  qed
qed

lemma direct_mapping_closed: "direct_mapping m = map (\<lambda>r. (r, r)) [2..<Suc m]"
  by (simp only: direct_mapping_def direct_mapping_upto fst_conv)

lemma build_references_get:
  assumes "build_references sheets rmap acc = Inr refs" "distinct (map fst rmap)"
  shows "(\<forall>rf. dict_get rmap R = Some rf \<longrightarrow> rf < length sheets) \<and>
         dict_get refs R =
           (case dict_get rmap R of
              None \<Rightarrow> dict_get acc R
            | Some rf \<Rightarrow>
                (case dict_get (column_map_of (sheets ! rf)) R of
                   None \<Rightarrow> dict_get acc R
                 | Some rcol \<Rightarrow> Some (scan_keys (sheets ! rf) rcol)))"
  using assms
proof (induction rmap arbitrary: acc)
  case Nil
  then show ?case by simp
next
  case (Cons p rmap)
  obtain cname rf where p: "p = (cname, rf)" by (cases p)
  have rf: "rf < length sheets" using Cons.prems(1) p by (auto split: if_splits)
  have d: "distinct (map fst rmap)" and nf: "dict_get rmap cname = None"
    using Cons.prems(2) p by (auto simp: dict_get_None_iff)
  show ?case
  proof (cases "dict_get (column_map_of (sheets ! rf)) cname")
    case None
    then have rest: "build_references sheets rmap acc = Inr refs"
      using Cons.prems(1) p rf by simp
    show ?thesis using Cons.IH[OF rest d] p rf nf None by (cases "R = cname") simp_all
  next
    case (Some rcol)
    then have rest: "build_references sheets rmap (dict_set acc cname (scan_keys (sheets ! rf) rcol)) = Inr refs"
      using Cons.prems(1) p rf by simp
    show ?thesis using Cons.IH[OF rest d] p rf nf Some
      by (cases "R = cname") (simp_all add: dict_get_set split: option.splits)
  qed
qed

lemma file_row_mapping_aligned:
  assumes "build_references sheets rmap [] = Inr refs"
    and "distinct (map fst rmap)"
    and "find_ref_column rmap cols = Some R"
    and "R \<noteq> []"
    and "fi < length sheets"
    and "dict_get (column_map_of (sheets ! fi)) R = Some col"
    and "dict_get rmap R = Some rf"
    and "dict_get (column_map_of (sheets ! rf)) R = Some rcol"
  shows "file_row_mapping sheets rmap refs fi cols =
           Inr (spec_row_mapping (first_occurrences (column_keys (sheets ! rf) rcol))
                  (column_keys (sheets ! fi) col))"
proof -
  have "dict_get refs R = Some (scan_keys (sheets ! rf) rcol)"
    using build_references_get[OF assms(1,2), of R] assms(7,8) by simp
  then show ?thesis
    using assms(3,4,5,6) by (simp add: file_row_mapping_def aligned_mapping_closed)
qed

lemma walk_pairs_nth:
  "i < length canonical \<Longrightarrow> canonical ! i \<in> set ks \<Longrightarrow>
   (first_row ks (canonical ! i), t0 + i) \<in> set (walk_pairs ks t0 canonical)"
proof (induction canonical arbitrary: i t0)
  case Nil
  then show ?case by simp
next
  case (Cons k rest)
  show ?case
  proof (cases i)
    case 0
    then show ?thesis using Cons.prems by (simp add: walk_pairs_Cons)
  next
    case (Suc j)
    then have "(first_row ks (rest ! j), Suc t0 + j) \<in> set (walk_pairs ks (Suc t0) rest)"
      using Cons.prems by (intro Cons.IH) simp_all
    then show ?thesis using Suc by (simp add: walk_pairs_Cons)
  qed
qed

lemma spec_row_mapping_nth:
  "i < length canonical \<Longrightarrow> canonical ! i \<in> set ks \<Longrightarrow>
   (first_row ks (canonical ! i), 2 + i) \<in> set (spec_row_mapping canonical ks)"
  using walk_pairs_nth[of i canonical ks 2] by (simp add: spec_row_mapping_pairs)

lemma column_copies_mem:
  "(fi, cname) \<in> set cols \<Longrightarrow> dict_get (column_map_of sh) cname = Some src \<Longrightarrow>
   (sr, tr) \<in> set frm \<Longrightarrow>
   \<exists>oc. ((fi, sr, src), (tr, oc), cell sh sr src) \<in> set (column_copies sh frm out_col cols) \<and>
        ((fi, 1, src), (1, oc), cell sh 1 src) \<in> set (column_copies sh frm out_col cols)"
proof (induction cols arbitrary: out_col)
  case Nil
  then show ?case by simp
next
  case (Cons p cols)
  obtain f n where p: "p = (f, n)" by (cases p)
  show ?case
  proof (cases "p = (fi, cname)")
    case True
    then show ?thesis using Cons.prems p
      by (auto simp: row_copies_def intro!: exI[of _ out_col] rev_image_eqI)
  next
    case False
    then have "(fi, cname) \<in> set cols" using Cons.prems(1) by simp
    from Cons.IH[OF this Cons.prems(2,3)] show ?thesis unfolding p
      by (cases "dict_get (column_map_of sh) n") (simp, simp, blast)
  qed
qed

lemma file_copies_mem:
  assumes "fi \<in> set files" "(fi, cname) \<in> set (dict_list cbf fi)"
    "dict_get (column_map_of (sheets ! fi)) cname = Some src" "(sr, tr) \<in> set (dict_list rm fi)"
  shows "\<exists>oc. ((fi, sr, src), (tr, oc), cell (sheets ! fi) sr src) \<in> set (file_copies sheets cbf rm out_col files) \<and>
        ((fi, 1, src), (1, oc), cell (sheets ! fi) 1 src) \<in> set (file_copies sheets cbf rm out_col files)"
  using assms(1)
proof (induction files arbitrary: out_col)
  case Nil
  then show ?case by simp
next
  case (Cons f files)
  show ?case
  proof (cases "f = fi")
    case True
    from column_copies_mem[OF assms(2,3,4), of out_col] show ?thesis using True by auto
  next
    case False
    then have "fi \<in> set files" using Cons.prems by simp
    from Cons.IH[OF this] show ?thesis by (simp, blast)
  qed
qed

lemma merge_success:
  assumes "outcome (merge_multiple_files sheets sel rmap path tok) = Inr p"
  obtains refs rm where "build_references sheets rmap [] = Inr refs"
    "build_row_mapping sheets rmap refs (columns_by_file sel) [] = Inr rm"
    "copies (final_state (merge_multiple_files sheets sel rmap path tok)) = merged_copies sheets sel rm"
    "saved_file (merge_multiple_files sheets sel rmap path tok) = Some (sheet_of_copies (merged_copies sheets sel rm))"
    "p = path"
proof -
  obtain refs where refs: "build_references sheets rmap [] = Inr refs"
    using assms by (cases "build_references sheets rmap []") (simp_all add: merge_multiple_files_def)
  obtain rm where rm: "build_row_mapping sheets rmap refs (columns_by_file sel) [] = Inr rm"
    using assms refs by (cases "build_row_mapping sheets rmap refs (columns_by_file sel) []")
      (simp_all add: merge_multiple_files_def Let_def)
  have t: "\<forall>i<merge_polls sheets sel rm. \<not> tok i"
  proof (rule ccontr)
    assume "\<not> ?thesis"
    from merge_cancel(1)[OF refs rm this, of path] assms show False by simp
  qed
  from merge_run[OF refs rm t, of path] assms refs rm that show ?thesis by simp
qed

lemma merge_copies_cases:
  "copies (final_state (merge_multiple_files sheets sel rmap path tok)) = [] \<or>
   (\<exists>refs rm m. build_references sheets rmap [] = Inr refs \<and>
      build_row_mapping sheets rmap refs (columns_by_file sel) [] = Inr rm \<and>
      copies (final_state (merge_multiple_files sheets sel rmap path tok)) =
        take m (merged_copies sheets sel rm))"
proof (cases "build_references sheets rmap []")
  case (Inl e)
  then show ?thesis using merge_failed[of sheets rmap e sel path tok] by (simp add: initial_state_def)
next
  case (Inr refs)
  show ?thesis
  proof (cases "build_row_mapping sheets rmap refs (columns_by_file sel) []")
    case (Inl e)
    then show ?thesis using Inr merge_failed[of sheets rmap e sel path tok]
      by (simp add: initial_state_def)
  next
    case rm: (Inr rm)
    show ?thesis
    proof (cases "\<forall>i<merge_polls sheets sel rm. \<not> tok i")
      case True
      from merge_run(4)[OF Inr rm True, of path]
      have "copies (final_state (merge_multiple_files sheets sel rmap path tok)) =
              take (length (merged_copies sheets sel rm)) (merged_copies sheets sel rm)" by simp
      then show ?thesis using Inr rm by blast
    next
      case False
      from merge_cancel(4)[OF Inr rm False, of path] show ?thesis using Inr rm by blast
    qed
  qed
qed

lemma column_copies_src:
  "((f, r, c), dst, v) \<in> set (column_copies sh frm oc cols) \<Longrightarrow>
   f \<in> set (map fst cols) \<and> (r = 1 \<or> r \<in> set (map fst frm))"
proof (induction cols arbitrary: oc)
  case Nil
  then show ?case by simp
next
  case (Cons p cols)
  obtain fi n where p: "p = (fi, n)" by (cases p)
  show ?case
  proof (cases "dict_get (column_map_of sh) n")
    case None
    then show ?thesis using Cons p by auto
  next
    case (Some src)
    then have "((f, r, c), dst, v) = ((fi, 1, src), (1, oc), cell sh 1 src) \<or>
               ((f, r, c), dst, v) \<in> set (row_copies sh fi src oc frm) \<or>
               ((f, r, c), dst, v) \<in> set (column_copies sh frm (Suc oc) cols)"
      using Cons.prems p by auto
    then show ?thesis
    proof (elim disjE)
      assume "((f, r, c), dst, v) \<in> set (row_copies sh fi src oc frm)"
      then show ?thesis by (force simp: row_copies_def p)
    next
      assume "((f, r, c), dst, v) \<in> set (column_copies sh frm (Suc oc) cols)"
      from Cons.IH[OF this] show ?thesis by simp
    qed (simp add: p)
  qed
qed

lemma file_copies_src:
  assumes "((f, r, c), dst, v) \<in> set (file_copies sheets cbf rm oc files)"
    and "\<And>fi. fi \<in> set files \<Longrightarrow> set (map fst (dict_list cbf fi)) \<subseteq> {fi}"
  shows "f \<in> set files \<and> (r = 1 \<or> r \<in> set (map fst (dict_list rm f)))"
  using assms
proof (induction files arbitrary: oc)
  case Nil
  then show ?case by simp
next
  case (Cons fi files)
  from Cons.prems(1) have "((f, r, c), dst, v) \<in> set (column_copies (sheets ! fi) (dict_list rm fi) oc (dict_list cbf fi)) \<or>
    ((f, r, c), dst, v) \<in> set (file_copies sheets cbf rm
       (oc + length (resolved_columns (sheets ! fi) (dict_list cbf fi))) files)" by simp
  then show ?case
  proof
    assume a: "((f, r, c), dst, v) \<in> set (column_copies (sheets ! fi) (dict_list rm fi) oc (dict_list cbf fi))"
    from column_copies_src[OF a] Cons.prems(2)[of fi] have "f = fi" by auto
    then show ?thesis using column_copies_src[OF a] by simp
  next
    assume a: "((f, r, c), dst, v) \<in> set (file_copies sheets cbf rm
       (oc + length (resolved_columns (sheets ! fi) (dict_list cbf fi))) files)"
    from Cons.IH[OF a] Cons.prems(2) show ?thesis by simp
  qed
qed

lemma columns_by_file_list: "dict_list (columns_by_file sel) fi = filter (\<lambda>(f, cname). f = fi) sel"
proof -
  have "filter (\<lambda>(f, cname). f = fi) sel = []" if "fi \<notin> fst ` set sel"
    using that by (force simp: filter_empty_conv)
  then show ?thesis by (auto simp: dict_list_def columns_by_file_get)
qed

lemma merged_copies_src:
  assumes "((f, r, c), dst, v) \<in> set (merged_copies sheets sel rm)"
  shows "f \<in> set (map fst sel) \<and> (r = 1 \<or> r \<in> set (map fst (dict_list rm f)))"
proof -
  have "set (map fst (dict_list (columns_by_file sel) fi)) \<subseteq> {fi}" for fi
    unfolding columns_by_file_list by auto
  from file_copies_src[OF assms[unfolded merged_copies_def] this]
  show ?thesis using columns_by_file_keys[of sel] by simp
qed

lemma spec_row_mapping_rows:
  "set (map fst (spec_row_mapping canonical ks)) = first_row ks ` set ks"
proof -
  have w: "fst ` set (walk_pairs ks 2 canonical) = first_row ks ` (set canonical \<inter> set ks)"
    using walk_pairs_rows[of ks 2 canonical] by simp
  have o: "fst ` set (own_pairs ks (2 + length canonical)
                       [k \<leftarrow> first_occurrences ks. k \<notin> set canonical]) =
           first_row ks ` (set ks - set canonical)"
    using own_pairs_rows[of ks "2 + length canonical" "[k \<leftarrow> first_occurrences ks. k \<notin> set canonical]"]
    by (simp add: set_diff_eq)
  have "set (map fst (spec_row_mapping canonical ks)) =
          first_row ks ` (set canonical \<inter> set ks) \<union> first_row ks ` (set ks - set canonical)"
    unfolding spec_row_mapping_pairs set_map set_append image_Un w o ..
  also have "\<dots> = first_row ks ` set ks" by blast
  finally show ?thesis .
qed

lemma column_keys_nth:
  "2 \<le> r \<Longrightarrow> r \<le> max_row sh \<Longrightarrow>
   r - 2 < length (column_keys sh col) \<and> column_keys sh col ! (r - 2) = cell sh r col"
proof -
  assume r: "2 \<le> r" "r \<le> max_row sh"
  then have l: "r - 2 < length [2..<Suc (max_row sh)]" by (simp del: upt_Suc)
  have "[2..<Suc (max_row sh)] ! (r - 2) = r" using r by (simp del: upt_Suc)
  then show ?thesis using l unfolding column_keys_def by (simp del: upt_Suc)
qed

lemma duplicate_row_not_first:
  assumes "2 \<le> r'" "r' < r" "r \<le> max_row sh" "cell sh r' col = cell sh r col"
  shows "r \<notin> first_row (column_keys sh col) ` set (column_keys sh col)"
proof
  let ?ks = "column_keys sh col"
  assume "r \<in> first_row ?ks ` set ?ks"
  then obtain k where k: "k \<in> set ?ks" "r = first_row ?ks k" by auto
  have "?ks ! (r - 2) = k" using first_row_nth[OF k(1)] k(2) by simp
  then have kr: "k = cell sh r col" using column_keys_nth[of r sh col] assms by simp
  have "r' - 2 < first_row ?ks k - 2" using assms k(2) by simp
  from first_row_least[OF this] have "?ks ! (r' - 2) \<noteq> k" .
  then show False using column_keys_nth[of r' sh col] assms kr by simp
qed

lemma file_row_mapping_driven:
  assumes "build_references sheets rmap [] = Inr refs"
    and "distinct (map fst rmap)"
    and "find_ref_column rmap cols = Some R"
    and "R \<noteq> []"
    and "dict_get (column_map_of (sheets ! fi)) R = Some col"
    and "file_row_mapping sheets rmap refs fi cols = Inr m"
  obtains rf rcol where "dict_get rmap R = Some rf" "rf < length sheets"
    "dict_get (column_map_of (sheets ! rf)) R = Some rcol"
    "m = spec_row_mapping (first_occurrences (column_keys (sheets ! rf) rcol))
           (column_keys (sheets ! fi) col)"
proof -
  from assms(3) have "dict_has rmap R"
    by (auto simp: find_ref_column_def dest!: find_Some_iff[THEN iffD1])
  then obtain rf where rf: "dict_get rmap R = Some rf" by (auto simp: dict_has_def)
  have fi: "fi < length sheets" using assms(6) by (rule file_row_mapping_index)
  from assms(6) obtain ref where ref: "dict_get refs R = Some ref"
    using assms(3,4) by (auto simp: file_row_mapping_def split: option.splits)
  from build_references_get[OF assms(1,2), of R] rf ref
  obtain rcol where rcol: "dict_get (column_map_of (sheets ! rf)) R = Some rcol"
    and rfl: "rf < length sheets"
    by (cases "dict_get (column_map_of (sheets ! rf)) R") auto
  from file_row_mapping_aligned[OF assms(1,2,3,4) fi assms(5) rf rcol] assms(6)
  have "m = spec_row_mapping (first_occurrences (column_keys (sheets ! rf) rcol))
           (column_keys (sheets ! fi) col)" by simp
  then show ?thesis using that rf rfl rcol by blast
qed

subsection \<open>Claim C3: construction of the row mapping\<close>

text \<open>
  Claim C3 as stated fails in two places. First, a file that selects and contains the
  reference column whose name is the empty string: the source tests
  \<open>if has_ref_column and ref_column_name\<close>, the empty name is false, and the file is
  mapped row by row, \<open>[(2, 2), (3, 3)]\<close>, where the construction of the claim gives
  \<open>[(3, 2), (2, 3)]\<close>. Second, a file that selects and contains two reference columns,
  K and L: the source takes the first reference name of the file's selection, K, and the
  mapping is not the construction of the claim for L.
\<close>

theorem row_mapping_counterexample:
  "build_references [unnamed_ref, unnamed_file] [('''', 0)] [] =
     Inr [('''', scan_keys unnamed_ref 1)] \<and>
   dict_get (column_map_of unnamed_file) '''' = Some 1 \<and>
   file_row_mapping [unnamed_ref, unnamed_file] [('''', 0)] [('''', scan_keys unnamed_ref 1)] 1
     [(1, '''')] = Inr [(2, 2), (3, 3)] \<and>
   spec_row_mapping (first_occurrences (column_keys unnamed_ref 1)) (column_keys unnamed_file 1) =
     [(3, 2), (2, 3)] \<and>
   build_references [two_keys_ref, two_keys_file] [(''K'', 0), (''L'', 0)] [] =
     Inr [(''K'', scan_keys two_keys_ref 1), (''L'', scan_keys two_keys_ref 2)] \<and>
   dict_get (column_map_of two_keys_file) ''L'' = Some 2 \<and>
   file_row_mapping [two_keys_ref, two_keys_file] [(''K'', 0), (''L'', 0)]
     [(''K'', scan_keys two_keys_ref 1), (''L'', scan_keys two_keys_ref 2)] 1
     [(1, ''K''), (1, ''L'')] = Inr [(3, 2), (2, 3)] \<and>
   spec_row_mapping (first_occurrences (column_keys two_keys_ref 2)) (column_keys two_keys_file 2) =
     [(2, 2), (3, 3)]"
  by code_simp

text \<open>
  Claim C3, amended. Let \<open>R\<close> be the first reference-map name among the file's selected
  columns. If \<open>R\<close> is not the empty string and the file itself contains the column \<open>R\<close>,
  the row mapping that Step 4 computes is the one built in the words of the
  specification: walk the reference file's canonical keys with a counter from 2 that
  advances for every canonical key, map the file's first row of each key it has to the
  counter, then append the file's own non-canonical keys in the file's row order. The
  other hypotheses say that Step 4b is reached at all: the reference map is a dictionary,
  Step 2 raised no \<open>KeyError\<close>, the reference file has the column, and the file index
  is valid.
\<close>

theorem row_mapping_construction:
  assumes "build_references sheets rmap [] = Inr refs"
    and "distinct (map fst rmap)"
    and "find_ref_column rmap cols = Some R"
    and "R \<noteq> []"
    and "fi < length sheets"
    and "dict_get (column_map_of (sheets ! fi)) R = Some col"
    and "dict_get rmap R = Some rf"
    and "dict_get (column_map_of (sheets ! rf)) R = Some rcol"
  shows "file_row_mapping sheets rmap refs fi cols =
           Inr (spec_row_mapping (first_occurrences (column_keys (sheets ! rf) rcol))
                  (column_keys (sheets ! fi) col))"
proof -
  have canonical: "dict_get refs R = Some (scan_keys (sheets ! rf) rcol)"
    using build_references_get[OF assms(1,2), of R] assms(7,8) by simp
  have "file_row_mapping sheets rmap refs fi cols =
          Inr (aligned_mapping (scan_keys (sheets ! rf) rcol) (sheets ! fi) col)"
    using assms(3,4,5,6) canonical by (simp add: file_row_mapping_def)
  then show ?thesis by (simp only: aligned_mapping_closed)
qed

text \<open>
  Claim C3, amended, at the scenario's files with ID selected from both: file B has the keys
  \<open>[2, 3, 4]\<close>, the canonical keys are \<open>[1, 2, 3]\<close>; B's rows 2 and 3 go to target rows
  3 and 4, and its own key 4 is appended at target row 5.
\<close>

theorem row_mapping_construction_witness:
  "file_row_mapping [file_A, file_B] [(''ID'', 0)] [(''ID'', scan_keys file_A 1)] 1
     [(1, ''ID''), (1, ''Score'')] = Inr [(2, 3), (3, 4), (4, 5)]"
proof -
  have h1: "build_references [file_A, file_B] [(''ID'', 0)] [] = Inr [(''ID'', scan_keys file_A 1)]"
    by code_simp
  have h2: "distinct (map fst [(''ID'', 0::nat)])" by simp
  have h3: "find_ref_column [(''ID'', 0)] [(1, ''ID''), (1, ''Score'')] = Some ''ID''" by code_simp
  have h4: "''ID'' \<noteq> []" by simp
  have h5: "1 < length [file_A, file_B]" by simp
  have h6: "dict_get (column_map_of ([file_A, file_B] ! 1)) ''ID'' = Some 1" by code_simp
  have h7: "dict_get [(''ID'', 0::nat)] ''ID'' = Some 0" by simp
  have h8: "dict_get (column_map_of ([file_A, file_B] ! 0)) ''ID'' = Some 1" by code_simp
  have v: "spec_row_mapping (first_occurrences (column_keys ([file_A, file_B] ! 0) 1))
             (column_keys ([file_A, file_B] ! 1) 1) = [(2, 3), (3, 4), (4, 5)]" by code_simp
  from row_mapping_construction[OF h1 h2 h3 h4 h5 h6 h7 h8] show ?thesis unfolding v .
qed

subsection \<open>Cells of the saved sheet of a merge\<close>

text \<open>
  A position that is assigned once holds the value of that assignment. In a merge every
  output column is written by one selected column, and within a column the target rows
  of a row mapping are distinct and differ from the header row.
\<close>

lemma sheet_of_copies_None: "pos \<notin> set (map target cs) \<Longrightarrow> sheet_of_copies cs pos = None"
  by (induction cs) (auto simp: target_def)

lemma sheet_of_copies_unique:
  "distinct (map target cs) \<Longrightarrow> (src, pos, v) \<in> set cs \<Longrightarrow> sheet_of_copies cs pos = Some v"
proof (induction cs)
  case Nil
  then show ?case by simp
next
  case (Cons c cs)
  obtain s d w where c: "c = (s, d, w)" by (cases c)
  show ?case
  proof (cases "(src, pos, v) \<in> set cs")
    case True
    then have "sheet_of_copies cs pos = Some v" using Cons by simp
    then show ?thesis by (simp add: c)
  next
    case False
    then have e: "s = src" "d = pos" "w = v" using Cons.prems(2) c by simp_all
    have "pos \<notin> set (map target cs)" using Cons.prems(1) c e by (simp add: target_def)
    then have "sheet_of_copies cs pos = None" by (rule sheet_of_copies_None)
    then show ?thesis by (simp add: c e)
  qed
qed

lemma length_emit_order: "length (emit_order sheets cbf files) = file_resolved sheets cbf files"
  by (induction files) simp_all

lemma row_copies_targets: "map target (row_copies sh fi src oc frm) = map (\<lambda>(sr, tr). (tr, oc)) frm"
  by (simp add: row_copies_def target_def split_def)

lemma column_copies_target_cols:
  "c \<in> set (column_copies sh frm oc cols) \<Longrightarrow>
   oc \<le> snd (target c) \<and> snd (target c) < oc + length (resolved_columns sh cols)"
proof (induction cols arbitrary: oc)
  case Nil
  then show ?case by simp
next
  case (Cons p cols)
  obtain fi n where p: "p = (fi, n)" by (cases p)
  show ?case
  proof (cases "dict_get (column_map_of sh) n")
    case None
    then show ?thesis using Cons p by (simp add: resolved_columns_def dict_has_def)
  next
    case (Some src)
    have res: "length (resolved_columns sh (p # cols)) = Suc (length (resolved_columns sh cols))"
      using Some p by (simp add: resolved_columns_def dict_has_def)
    from Cons.prems Some p have
      "c = ((fi, 1, src), (1, oc), cell sh 1 src) \<or> c \<in> set (row_copies sh fi src oc frm) \<or>
       c \<in> set (column_copies sh frm (Suc oc) cols)" by auto
    then show ?thesis
    proof (elim disjE)
      assume "c = ((fi, 1, src), (1, oc), cell sh 1 src)"
      then show ?thesis unfolding res by (simp add: target_def)
    next
      assume "c \<in> set (row_copies sh fi src oc frm)"
      then show ?thesis unfolding res by (auto simp: row_copies_def target_def)
    next
      assume "c \<in> set (column_copies sh frm (Suc oc) cols)"
      from Cons.IH[OF this] show ?thesis unfolding res by simp
    qed
  qed
qed

lemma column_copies_distinct:
  assumes "distinct (map snd frm)" "1 \<notin> snd ` set frm"
  shows "distinct (map target (column_copies sh frm oc cols))"
proof (induction cols arbitrary: oc)
  case Nil
  show ?case by simp
next
  case (Cons p cols)
  obtain fi n where p: "p = (fi, n)" by (cases p)
  show ?case
  proof (cases "dict_get (column_map_of sh) n")
    case None
    then show ?thesis using Cons p by simp
  next
    case (Some src)
    have rows: "map target (row_copies sh fi src oc frm) = map (\<lambda>t. (t, oc)) (map snd frm)"
      by (simp add: row_copies_targets split_def)
    have d1: "distinct (map target (row_copies sh fi src oc frm))"
      unfolding rows using assms(1) by (simp add: distinct_map inj_on_def)
    have h: "(1, oc) \<notin> set (map target (row_copies sh fi src oc frm))"
      unfolding rows using assms(2) by auto
    have later: "snd t \<noteq> oc" if "t \<in> set (map target (column_copies sh frm (Suc oc) cols))" for t
    proof -
      from that obtain c where c: "c \<in> set (column_copies sh frm (Suc oc) cols)" "t = target c"
        by auto
      from column_copies_target_cols[OF c(1)] show ?thesis using c(2) by simp
    qed
    have sep: "set (map target (row_copies sh fi src oc frm)) \<inter>
               set (map target (column_copies sh frm (Suc oc) cols)) = {}"
    proof (rule ccontr)
      assume "\<not> ?thesis"
      then obtain t where t: "t \<in> set (map target (row_copies sh fi src oc frm))"
        "t \<in> set (map target (column_copies sh frm (Suc oc) cols))" by blast
      from t(1) have "snd t = oc" unfolding rows by auto
      then show False using later[OF t(2)] by simp
    qed
    have h2: "(1, oc) \<notin> set (map target (column_copies sh frm (Suc oc) cols))"
      using later[of "(1, oc)"] by auto
    show ?thesis using Some p d1 h h2 sep Cons.IH[of "Suc oc"] by (simp add: target_def[of "(_, _, _)"])
  qed
qed

lemma file_copies_target_cols:
  "c \<in> set (file_copies sheets cbf rm oc files) \<Longrightarrow>
   oc \<le> snd (target c) \<and> snd (target c) < oc + file_resolved sheets cbf files"
proof (induction files arbitrary: oc)
  case Nil
  then show ?case by simp
next
  case (Cons fi files)
  let ?n = "length (resolved_columns (sheets ! fi) (dict_list cbf fi))"
  from Cons.prems have
    "c \<in> set (column_copies (sheets ! fi) (dict_list rm fi) oc (dict_list cbf fi)) \<or>
     c \<in> set (file_copies sheets cbf rm (oc + ?n) files)" by simp
  then show ?case
  proof
    assume "c \<in> set (column_copies (sheets ! fi) (dict_list rm fi) oc (dict_list cbf fi))"
    from column_copies_target_cols[OF this] show ?thesis by simp
  next
    assume "c \<in> set (file_copies sheets cbf rm (oc + ?n) files)"
    from Cons.IH[OF this] show ?thesis by simp
  qed
qed

lemma file_copies_distinct:
  assumes "\<And>fi. fi \<in> set files \<Longrightarrow>
             distinct (map snd (dict_list rm fi)) \<and> 1 \<notin> snd ` set (dict_list rm fi)"
  shows "distinct (map target (file_copies sheets cbf rm oc files))"
  using assms
proof (induction files arbitrary: oc)
  case Nil
  show ?case by simp
next
  case (Cons fi files)
  let ?n = "length (resolved_columns (sheets ! fi) (dict_list cbf fi))"
  let ?first = "column_copies (sheets ! fi) (dict_list rm fi) oc (dict_list cbf fi)"
  let ?rest = "file_copies sheets cbf rm (oc + ?n) files"
  have d1: "distinct (map target ?first)"
    using Cons.prems[of fi] by (intro column_copies_distinct) simp_all
  have d2: "distinct (map target ?rest)"
    using Cons.prems by (intro Cons.IH) simp
  have sep: "set (map target ?first) \<inter> set (map target ?rest) = {}"
  proof (rule ccontr)
    assume "\<not> ?thesis"
    then obtain t where t: "t \<in> set (map target ?first)" "t \<in> set (map target ?rest)" by blast
    from t(1) obtain a where a: "a \<in> set ?first" and ta: "t = target a" by auto
    from t(2) obtain b where b: "b \<in> set ?rest" and tb: "t = target b" by auto
    have e: "target a = target b" using ta tb by simp
    from column_copies_target_cols[OF a] file_copies_target_cols[OF b] e show False by simp
  qed
  show ?case using d1 d2 sep by simp
qed

lemma column_copies_nth:
  assumes "j < length (resolved_columns sh cols)"
    and "resolved_columns sh cols ! j = (fi, n)"
    and "dict_get (column_map_of sh) n = Some src"
  shows "((fi, 1, src), (1, oc + j), cell sh 1 src) \<in> set (column_copies sh frm oc cols) \<and>
         (\<forall>sr tr. (sr, tr) \<in> set frm \<longrightarrow>
            ((fi, sr, src), (tr, oc + j), cell sh sr src) \<in> set (column_copies sh frm oc cols))"
  using assms(1,2)
proof (induction cols arbitrary: oc j)
  case Nil
  then show ?case by (simp add: resolved_columns_def)
next
  case (Cons p cols)
  obtain f n' where p: "p = (f, n')" by (cases p)
  show ?case
  proof (cases "dict_get (column_map_of sh) n'")
    case None
    then have res: "resolved_columns sh (p # cols) = resolved_columns sh cols"
      using p by (simp add: resolved_columns_def dict_has_def)
    from Cons.IH[of j oc] Cons.prems show ?thesis unfolding res using None p by simp
  next
    case (Some src')
    then have res: "resolved_columns sh (p # cols) = p # resolved_columns sh cols"
      using p by (simp add: resolved_columns_def dict_has_def)
    show ?thesis
    proof (cases j)
      case 0
      then have "p = (fi, n)" using Cons.prems(2) res by simp
      then have e: "f = fi" "src' = src" using p Some assms(3) by simp_all
      show ?thesis using 0 p Some e by (auto simp: row_copies_def intro!: rev_image_eqI)
    next
      case (Suc j')
      then have "j' < length (resolved_columns sh cols)" "resolved_columns sh cols ! j' = (fi, n)"
        using Cons.prems res by simp_all
      from Cons.IH[OF this, of "Suc oc"] show ?thesis using Suc p Some by simp
    qed
  qed
qed

lemma file_copies_nth:
  assumes "j < length (emit_order sheets cbf files)"
    and "emit_order sheets cbf files ! j = (fi, n)"
    and "\<And>f. f \<in> set files \<Longrightarrow> set (map fst (dict_list cbf f)) \<subseteq> {f}"
    and "dict_get (column_map_of (sheets ! fi)) n = Some src"
  shows "((fi, 1, src), (1, oc + j), cell (sheets ! fi) 1 src)
           \<in> set (file_copies sheets cbf rm oc files) \<and>
         (\<forall>sr tr. (sr, tr) \<in> set (dict_list rm fi) \<longrightarrow>
            ((fi, sr, src), (tr, oc + j), cell (sheets ! fi) sr src)
              \<in> set (file_copies sheets cbf rm oc files))"
  using assms(1,2,3)
proof (induction files arbitrary: oc j)
  case Nil
  then show ?case by simp
next
  case (Cons f files)
  let ?res = "resolved_columns (sheets ! f) (dict_list cbf f)"
  show ?case
  proof (cases "j < length ?res")
    case True
    then have at: "?res ! j = (fi, n)" using Cons.prems(2) by (simp add: nth_append)
    then have "(fi, n) \<in> set ?res" using True nth_mem by metis
    then have "(fi, n) \<in> set (dict_list cbf f)" by (simp add: resolved_columns_def)
    then have e: "f = fi" using Cons.prems(3)[of f] by force
    from column_copies_nth[OF True at, of src oc "dict_list rm f"] assms(4) e
    show ?thesis by simp
  next
    case False
    then have j: "j - length ?res < length (emit_order sheets cbf files)"
      and at: "emit_order sheets cbf files ! (j - length ?res) = (fi, n)"
      using Cons.prems(1,2) by (simp_all add: nth_append)
    have sub: "\<And>f. f \<in> set files \<Longrightarrow> set (map fst (dict_list cbf f)) \<subseteq> {f}"
      using Cons.prems(3) by simp
    have oc: "oc + length ?res + (j - length ?res) = oc + j" using False by simp
    from Cons.IH[OF j at sub, of "oc + length ?res"] show ?thesis unfolding oc by simp
  qed
qed

lemma emit_order_mem:
  assumes "fi \<in> set files" "(fi, n) \<in> set (dict_list cbf fi)"
    "dict_get (column_map_of (sheets ! fi)) n = Some src"
  shows "(fi, n) \<in> set (emit_order sheets cbf files)"
  using assms(1)
proof (induction files)
  case Nil
  then show ?case by simp
next
  case (Cons f files)
  show ?case
  proof (cases "f = fi")
    case True
    then show ?thesis using assms(2,3) by (simp add: resolved_columns_def dict_has_def)
  next
    case False
    then show ?thesis using Cons by simp
  qed
qed

lemma walk_pairs_targets:
  "distinct (map snd (walk_pairs ks t0 canonical)) \<and>
   (\<forall>t \<in> snd ` set (walk_pairs ks t0 canonical). t0 \<le> t \<and> t < t0 + length canonical)"
proof (induction canonical arbitrary: t0)
  case Nil
  show ?case by simp
next
  case (Cons k rest)
  have later: "\<forall>t \<in> snd ` set (walk_pairs ks (Suc t0) rest). Suc t0 \<le> t \<and> t < Suc t0 + length rest"
    using Cons.IH[of "Suc t0"] by simp
  have d: "distinct (map snd (walk_pairs ks (Suc t0) rest))" using Cons.IH[of "Suc t0"] by simp
  have nt: "t0 \<notin> snd ` set (walk_pairs ks (Suc t0) rest)" using later by force
  show ?case unfolding walk_pairs_Cons using later d nt by (auto simp: less_Suc_eq_le)
qed

lemma own_pairs_targets:
  "distinct (map snd (own_pairs ks t0 extras)) \<and>
   (\<forall>t \<in> snd ` set (own_pairs ks t0 extras). t0 \<le> t)"
proof (induction extras arbitrary: t0)
  case Nil
  show ?case by simp
next
  case (Cons k rest)
  have later: "\<forall>t \<in> snd ` set (own_pairs ks (Suc t0) rest). Suc t0 \<le> t"
    using Cons.IH[of "Suc t0"] by simp
  have d: "distinct (map snd (own_pairs ks (Suc t0) rest))" using Cons.IH[of "Suc t0"] by simp
  have nt: "t0 \<notin> snd ` set (own_pairs ks (Suc t0) rest)" using later by force
  show ?case unfolding own_pairs_Cons using later d nt by auto
qed

lemma spec_row_mapping_targets:
  "distinct (map snd (spec_row_mapping canonical ks)) \<and>
   1 \<notin> snd ` set (spec_row_mapping canonical ks)"
proof -
  let ?w = "walk_pairs ks 2 canonical"
  let ?o = "own_pairs ks (2 + length canonical) [k \<leftarrow> first_occurrences ks. k \<notin> set canonical]"
  have w: "distinct (map snd ?w)" "\<forall>t \<in> snd ` set ?w. 2 \<le> t \<and> t < 2 + length canonical"
    using walk_pairs_targets[of ks 2 canonical] by simp_all
  have o: "distinct (map snd ?o)" "\<forall>t \<in> set (map snd ?o). 2 + length canonical \<le> t"
    using own_pairs_targets[of ks "2 + length canonical"
        "[k \<leftarrow> first_occurrences ks. k \<notin> set canonical]"] by simp_all
  have sep: "set (map snd ?w) \<inter> set (map snd ?o) = {}"
  proof (rule ccontr)
    assume "\<not> ?thesis"
    then obtain t where "t \<in> set (map snd ?w)" "t \<in> set (map snd ?o)" by blast
    then show False using w(2) o(2) by force
  qed
  have "1 \<notin> set (map snd ?w)" using w(2) by force
  moreover have "1 \<notin> set (map snd ?o)" using o(2) by force
  ultimately show ?thesis unfolding spec_row_mapping_pairs using w(1) o(1) sep
    by (simp add: image_Un)
qed

lemma direct_mapping_targets:
  "distinct (map snd (direct_mapping m)) \<and> 1 \<notin> snd ` set (direct_mapping m)"
proof -
  have "map snd (direct_mapping m) = [2..<Suc m]"
    unfolding direct_mapping_closed by (simp add: comp_def del: upt_Suc)
  then have "distinct (map snd (direct_mapping m))" "1 \<notin> set (map snd (direct_mapping m))"
    by (simp_all del: upt_Suc)
  then show ?thesis by simp
qed

lemma build_references_scanned:
  assumes "build_references sheets rmap [] = Inr refs" "distinct (map fst rmap)"
    "dict_get refs R = Some ref"
  obtains rf rcol where "ref = scan_keys (sheets ! rf) rcol"
  using build_references_get[OF assms(1,2), of R] assms(3) that
  by (auto split: option.splits)

lemma file_row_mapping_targets:
  assumes "build_references sheets rmap [] = Inr refs" "distinct (map fst rmap)"
    and "file_row_mapping sheets rmap refs fi cols = Inr m"
  shows "distinct (map snd m) \<and> 1 \<notin> snd ` set m"
proof -
  from assms(3) consider
    (direct) "m = direct_mapping (max_row (sheets ! fi))"
    | (aligned) R ref col where "dict_get refs R = Some ref"
        "m = aligned_mapping ref (sheets ! fi) col"
    by (auto simp: file_row_mapping_def split: option.splits if_splits)
  then show ?thesis
  proof cases
    case direct
    then show ?thesis using direct_mapping_targets by simp
  next
    case aligned
    from build_references_scanned[OF assms(1,2) aligned(1)] obtain rf rcol where
      "ref = scan_keys (sheets ! rf) rcol" by blast
    then have "m = spec_row_mapping (first_occurrences (column_keys (sheets ! rf) rcol))
                 (column_keys (sheets ! fi) col)"
      using aligned(2) by (simp only: aligned_mapping_closed)
    then show ?thesis using spec_row_mapping_targets by simp
  qed
qed

lemma row_mapping_of_file:
  assumes "build_row_mapping sheets rmap refs (columns_by_file sel) [] = Inr rm"
    and "fi \<in> set (map fst sel)"
  obtains m where "dict_get rm fi = Some m"
    "file_row_mapping sheets rmap refs fi [(f, cname) \<leftarrow> sel. f = fi] = Inr m"
proof -
  have cols: "dict_get (columns_by_file sel) fi = Some [(f, cname) \<leftarrow> sel. f = fi]"
    using assms(2) by (simp add: columns_by_file_get)
  from build_row_mapping_get[OF assms(1) columns_by_file_distinct, of fi] cols
  obtain m where "file_row_mapping sheets rmap refs fi [(f, cname) \<leftarrow> sel. f = fi] = Inr m"
    "dict_get rm fi = Some m" by auto
  then show ?thesis using that by blast
qed

text \<open>No cell of the output sheet is assigned twice by a merge.\<close>

lemma merged_copies_distinct:
  assumes "build_references sheets rmap [] = Inr refs" "distinct (map fst rmap)"
    and "build_row_mapping sheets rmap refs (columns_by_file sel) [] = Inr rm"
  shows "distinct (map target (merged_copies sheets sel rm))"
  unfolding merged_copies_def
proof (rule file_copies_distinct)
  fix fi assume "fi \<in> set (sort (dict_keys (columns_by_file sel)))"
  then have "fi \<in> set (map fst sel)" using columns_by_file_keys[of sel] by simp
  from row_mapping_of_file[OF assms(3) this] obtain m where
    m: "dict_get rm fi = Some m"
    "file_row_mapping sheets rmap refs fi [(f, cname) \<leftarrow> sel. f = fi] = Inr m" by blast
  from file_row_mapping_targets[OF assms(1,2) m(2)] m(1)
  show "distinct (map snd (dict_list rm fi)) \<and> 1 \<notin> snd ` set (dict_list rm fi)"
    by (simp add: dict_list_def)
qed

lemma merged_sheet_cell:
  assumes "build_references sheets rmap [] = Inr refs" "distinct (map fst rmap)"
    and "build_row_mapping sheets rmap refs (columns_by_file sel) [] = Inr rm"
    and "j < length (emitted_columns sheets sel)"
    and "emitted_columns sheets sel ! j = (fi, n)"
    and "dict_get (column_map_of (sheets ! fi)) n = Some src"
  shows "sheet_of_copies (merged_copies sheets sel rm) (1, Suc j) = Some (cell (sheets ! fi) 1 src)"
    and "(sr, tr) \<in> set (dict_list rm fi) \<Longrightarrow>
         sheet_of_copies (merged_copies sheets sel rm) (tr, Suc j) = Some (cell (sheets ! fi) sr src)"
proof -
  have sub: "\<And>f. set (map fst (dict_list (columns_by_file sel) f)) \<subseteq> {f}"
    unfolding columns_by_file_list by auto
  note mem = file_copies_nth[OF assms(4,5)[unfolded emitted_columns_def] sub assms(6), of 1 rm,
      folded merged_copies_def]
  note d = merged_copies_distinct[OF assms(1,2,3)]
  from mem have "((fi, 1, src), (1, 1 + j), cell (sheets ! fi) 1 src)
                   \<in> set (merged_copies sheets sel rm)" by (rule conjunct1)
  from sheet_of_copies_unique[OF d this]
  show "sheet_of_copies (merged_copies sheets sel rm) (1, Suc j) = Some (cell (sheets ! fi) 1 src)"
    by simp
  show "sheet_of_copies (merged_copies sheets sel rm) (tr, Suc j) = Some (cell (sheets ! fi) sr src)"
    if "(sr, tr) \<in> set (dict_list rm fi)"
  proof -
    from mem that have "((fi, sr, src), (tr, 1 + j), cell (sheets ! fi) sr src)
                          \<in> set (merged_copies sheets sel rm)" by blast
    from sheet_of_copies_unique[OF d this] show ?thesis by simp
  qed
qed

lemma first_row_cell:
  assumes "k \<in> set (column_keys sh col)"
  shows "cell sh (first_row (column_keys sh col) k) col = k"
proof -
  let ?ks = "column_keys sh col"
  let ?r = "first_row ?ks k"
  from first_row_nth[OF assms] have l: "?r - 2 < length ?ks" and v: "?ks ! (?r - 2) = k"
    by simp_all
  have two: "2 \<le> ?r" by (simp add: first_row_def)
  have "length ?ks = Suc (max_row sh) - 2" by (simp add: column_keys_def del: upt_Suc)
  then have "?r \<le> max_row sh" using l two by linarith
  from column_keys_nth[OF two this, of col] v show ?thesis by simp
qed

lemma emitted_columns_mem:
  assumes "(fi, n) \<in> set sel" "dict_get (column_map_of (sheets ! fi)) n = Some src"
  shows "(fi, n) \<in> set (emitted_columns sheets sel)"
proof -
  have "fi \<in> set (map fst sel)" using assms(1) by force
  then have fk: "fi \<in> set (sort (dict_keys (columns_by_file sel)))"
    using columns_by_file_keys[of sel] by simp
  have incl: "(fi, n) \<in> set (dict_list (columns_by_file sel) fi)"
    using assms(1) by (simp add: columns_by_file_list)
  from emit_order_mem[OF fk incl assms(2)] show ?thesis by (simp add: emitted_columns_def)
qed

subsection \<open>Claim C1: alignment\<close>

text \<open>
  Claim C1 as stated fails. All three files are driven by ID with file 0 as reference.
  Key 5 is in the ID columns of files 1 and 2 but not in the reference file: file 1's
  data for key 5 is written to output row 3, file 2's data for key 5 to output row 4.
\<close>

theorem merge_alignment_counterexample:
  "saved_rows
     (merge_multiple_files [ref_file, left_file, right_file]
        [(0, ''ID''), (1, ''ID''), (1, ''Name''), (2, ''ID''), (2, ''Score'')]
        [(''ID'', 0)] ''out.xlsx'' never_cancelled) 4 5 =
   [[Some (PyStr ''ID''), Some (PyStr ''ID''), Some (PyStr ''Name''), Some (PyStr ''ID''),
     Some (PyStr ''Score'')],
    [Some (PyInt 1), Some (PyInt 1), Some (PyStr ''one''), Some (PyInt 1), Some (PyInt 10)],
    [None, Some (PyInt 5), Some (PyStr ''five''), Some (PyInt 6), Some (PyInt 60)],
    [None, Some (PyInt 6), Some (PyStr ''six''), Some (PyInt 5), Some (PyInt 50)]]"
  by code_simp

text \<open>
  Claim C1, amended: in a successful run, take two selected columns (of files \<open>fA\<close> and
  \<open>fB\<close>) that resolve in their files, both files driven by the reference name \<open>R\<close> and
  both containing the column \<open>R\<close>. For the key \<open>k\<close> at position \<open>i\<close> of the canonical
  key sequence of \<open>R\<close>, if \<open>k\<close> occurs in both files' \<open>R\<close> columns, then row \<open>2 + i\<close>
  of the saved sheet holds, in every output column of either of the two selected columns,
  the cell of that column in its file's first row bearing \<open>k\<close>. Both selected columns
  have an output column; the output column of the entry at position \<open>j\<close> of
  \<open>emitted_columns\<close> is \<open>j + 1\<close>, and its header cell is the source column's header.
\<close>

theorem merge_alignment:
  assumes "outcome (merge_multiple_files sheets sel rmap path tok) = Inr p"
    and "distinct (map fst rmap)"
    and "(fA, nA) \<in> set sel" and "(fB, nB) \<in> set sel"
    and "find_ref_column rmap [(f, cname) \<leftarrow> sel. f = fA] = Some R"
    and "find_ref_column rmap [(f, cname) \<leftarrow> sel. f = fB] = Some R"
    and "R \<noteq> []"
    and "dict_get rmap R = Some rf"
    and "dict_get (column_map_of (sheets ! rf)) R = Some rcol"
    and "dict_get (column_map_of (sheets ! fA)) R = Some kA"
    and "dict_get (column_map_of (sheets ! fB)) R = Some kB"
    and "dict_get (column_map_of (sheets ! fA)) nA = Some cA"
    and "dict_get (column_map_of (sheets ! fB)) nB = Some cB"
    and "i < length (first_occurrences (column_keys (sheets ! rf) rcol))"
    and "first_occurrences (column_keys (sheets ! rf) rcol) ! i = k"
    and "k \<in> set (column_keys (sheets ! fA) kA)"
    and "k \<in> set (column_keys (sheets ! fB) kB)"
  shows "\<exists>out. saved_file (merge_multiple_files sheets sel rmap path tok) = Some out \<and>
           (fA, nA) \<in> set (emitted_columns sheets sel) \<and>
           (fB, nB) \<in> set (emitted_columns sheets sel) \<and>
           cell (sheets ! fA) (first_row (column_keys (sheets ! fA) kA) k) kA = k \<and>
           cell (sheets ! fB) (first_row (column_keys (sheets ! fB) kB) k) kB = k \<and>
           (\<forall>j<length (emitted_columns sheets sel).
              (emitted_columns sheets sel ! j = (fA, nA) \<longrightarrow>
                 out (1, Suc j) = Some (cell (sheets ! fA) 1 cA) \<and>
                 out (2 + i, Suc j) =
                   Some (cell (sheets ! fA) (first_row (column_keys (sheets ! fA) kA) k) cA)) \<and>
              (emitted_columns sheets sel ! j = (fB, nB) \<longrightarrow>
                 out (1, Suc j) = Some (cell (sheets ! fB) 1 cB) \<and>
                 out (2 + i, Suc j) =
                   Some (cell (sheets ! fB) (first_row (column_keys (sheets ! fB) kB) k) cB)))"
proof -
  let ?cbf = "columns_by_file sel"
  let ?canonical = "first_occurrences (column_keys (sheets ! rf) rcol)"
  let ?out = "sheet_of_copies (merged_copies sheets sel rm)"
  from merge_success[OF assms(1)] obtain refs rm where
    refs: "build_references sheets rmap [] = Inr refs"
    and rm: "build_row_mapping sheets rmap refs ?cbf [] = Inr rm"
    and sv: "saved_file (merge_multiple_files sheets sel rmap path tok) =
               Some (sheet_of_copies (merged_copies sheets sel rm))" by metis
  have one: "(f, n) \<in> set (emitted_columns sheets sel) \<and>
             cell (sheets ! f) (first_row (column_keys (sheets ! f) kc) k) kc = k \<and>
             (\<forall>j<length (emitted_columns sheets sel).
                emitted_columns sheets sel ! j = (f, n) \<longrightarrow>
                  sheet_of_copies (merged_copies sheets sel rm) (1, Suc j) =
                    Some (cell (sheets ! f) 1 c) \<and>
                  sheet_of_copies (merged_copies sheets sel rm) (2 + i, Suc j) =
                    Some (cell (sheets ! f) (first_row (column_keys (sheets ! f) kc) k) c))"
    if sel: "(f, n) \<in> set sel"
      and drv: "find_ref_column rmap [(f', cname) \<leftarrow> sel. f' = f] = Some R"
      and kc: "dict_get (column_map_of (sheets ! f)) R = Some kc"
      and c: "dict_get (column_map_of (sheets ! f)) n = Some c"
      and k: "k \<in> set (column_keys (sheets ! f) kc)"
    for f n kc c
  proof -
    have fin: "f \<in> set (map fst sel)" using sel by force
    from row_mapping_of_file[OF rm fin] obtain m where
      g: "dict_get rm f = Some m"
      and m: "file_row_mapping sheets rmap refs f [(f', cname) \<leftarrow> sel. f' = f] = Inr m" by blast
    have fl: "f < length sheets" using m by (rule file_row_mapping_index)
    from file_row_mapping_aligned[OF refs assms(2) drv assms(7) fl kc assms(8,9)] m
    have meq: "m = spec_row_mapping ?canonical (column_keys (sheets ! f) kc)" by simp
    have pair: "(first_row (column_keys (sheets ! f) kc) k, 2 + i) \<in> set (dict_list rm f)"
      using spec_row_mapping_nth[OF assms(14), of "column_keys (sheets ! f) kc"] assms(15) k g meq
      by (simp add: dict_list_def)
    have cells: "sheet_of_copies (merged_copies sheets sel rm) (1, Suc j) =
                   Some (cell (sheets ! f) 1 c) \<and>
                 sheet_of_copies (merged_copies sheets sel rm) (2 + i, Suc j) =
                   Some (cell (sheets ! f) (first_row (column_keys (sheets ! f) kc) k) c)"
      if "j < length (emitted_columns sheets sel)" "emitted_columns sheets sel ! j = (f, n)" for j
      using merged_sheet_cell(1)[OF refs assms(2) rm that c]
        merged_sheet_cell(2)[OF refs assms(2) rm that c pair] by simp
    show ?thesis
      using emitted_columns_mem[OF sel c] first_row_cell[OF k] cells by blast
  qed
  from one[OF assms(3,5,10,12,16)] one[OF assms(4,6,11,13,17)] show ?thesis
    unfolding sv by blast
qed

text \<open>
  Claim C1, amended, at the scenario's files with ID selected from both: the output
  columns are A's ID and Name and B's ID and Score. Key 2 is the second canonical key;
  A's Name for it (Bob, A's row 3) and B's Score for it (90, B's row 2) are both in row
  3 of the saved sheet, in columns 2 and 4.
\<close>

theorem merge_alignment_witness:
  "\<exists>out. saved_file (merge_multiple_files [file_A, file_B] both_ids [(''ID'', 0)] ''out.xlsx''
            never_cancelled) = Some out \<and>
     out (3, 2) = Some (PyStr ''Bob'') \<and> out (3, 4) = Some (PyInt 90)"
proof -
  let ?sheets = "[file_A, file_B]"
  let ?rmap = "[(''ID'', 0::nat)]"
  have h1: "outcome (merge_multiple_files ?sheets both_ids ?rmap ''out.xlsx'' never_cancelled) = Inr ''out.xlsx''"
    by code_simp
  have h2: "distinct (map fst ?rmap)" by simp
  have h3: "(0, ''Name'') \<in> set both_ids" by (simp add: both_ids_def)
  have h4: "(1, ''Score'') \<in> set both_ids" by (simp add: both_ids_def)
  have h5: "find_ref_column ?rmap [(f, cname) \<leftarrow> both_ids. f = 0] = Some ''ID''" by code_simp
  have h6: "find_ref_column ?rmap [(f, cname) \<leftarrow> both_ids. f = 1] = Some ''ID''" by code_simp
  have h7: "''ID'' \<noteq> []" by simp
  have h8: "dict_get ?rmap ''ID'' = Some 0" by simp
  have h9: "dict_get (column_map_of (?sheets ! 0)) ''ID'' = Some 1" by code_simp
  have h11: "dict_get (column_map_of (?sheets ! 1)) ''ID'' = Some 1" by code_simp
  have h12: "dict_get (column_map_of (?sheets ! 0)) ''Name'' = Some 2" by code_simp
  have h13: "dict_get (column_map_of (?sheets ! 1)) ''Score'' = Some 2" by code_simp
  have h14: "1 < length (first_occurrences (column_keys (?sheets ! 0) 1))" by code_simp
  have h15: "first_occurrences (column_keys (?sheets ! 0) 1) ! 1 = PyInt 2" by code_simp
  have h16: "PyInt 2 \<in> set (column_keys (?sheets ! 0) 1)" by code_simp
  have h17: "PyInt 2 \<in> set (column_keys (?sheets ! 1) 1)" by code_simp
  have v: "first_row (column_keys (?sheets ! 0) 1) (PyInt 2) = 3"
    "first_row (column_keys (?sheets ! 1) 1) (PyInt 2) = 2"
    "cell (?sheets ! 0) 3 2 = PyStr ''Bob''" "cell (?sheets ! 1) 2 2 = PyInt 90"
    by code_simp+
  have e: "emitted_columns ?sheets both_ids = [(0, ''ID''), (0, ''Name''), (1, ''ID''), (1, ''Score'')]"
    by code_simp
  from merge_alignment[OF h1 h2 h3 h4 h5 h6 h7 h8 h9 h9 h11 h12 h13 h14 h15 h16 h17]
  obtain out where
    s: "saved_file (merge_multiple_files ?sheets both_ids ?rmap ''out.xlsx'' never_cancelled) = Some out"
    and c: "\<forall>j<length (emitted_columns ?sheets both_ids).
              (emitted_columns ?sheets both_ids ! j = (0, ''Name'') \<longrightarrow>
                 out (1, Suc j) = Some (cell (?sheets ! 0) 1 2) \<and>
                 out (2 + 1, Suc j) =
                   Some (cell (?sheets ! 0) (first_row (column_keys (?sheets ! 0) 1) (PyInt 2)) 2)) \<and>
              (emitted_columns ?sheets both_ids ! j = (1, ''Score'') \<longrightarrow>
                 out (1, Suc j) = Some (cell (?sheets ! 1) 1 2) \<and>
                 out (2 + 1, Suc j) =
                   Some (cell (?sheets ! 1) (first_row (column_keys (?sheets ! 1) 1) (PyInt 2)) 2))"
    by blast
  have "out (3, 2) = Some (PyStr ''Bob'')" using c[rule_format, of 1] unfolding e v
    by (simp flip: numeral_2_eq_2)
  moreover have "out (3, 4) = Some (PyInt 90)" using c[rule_format, of 3] unfolding e v by simp
  ultimately show ?thesis using s by blast
qed

subsection \<open>Claim C10: rows with a repeated key\<close>

text \<open>
  Claim C10. For a file driven by a reference column \<open>R\<close> that it contains, the source
  rows of its row mapping are exactly the first rows of its distinct keys. A row \<open>r\<close>
  whose key already occurs in an earlier data row \<open>r'\<close> has no target row, and no run of
  the merge, cancelled or not, copies a cell of row \<open>r\<close> of that file.
\<close>

theorem duplicate_rows_dropped:
  assumes "build_references sheets rmap [] = Inr refs"
    and "distinct (map fst rmap)"
    and "find_ref_column rmap [(f, cname) \<leftarrow> sel. f = fi] = Some R"
    and "R \<noteq> []"
    and "dict_get (column_map_of (sheets ! fi)) R = Some col"
    and "file_row_mapping sheets rmap refs fi [(f, cname) \<leftarrow> sel. f = fi] = Inr m"
    and "2 \<le> r'" and "r' < r" and "r \<le> max_row (sheets ! fi)"
    and "cell (sheets ! fi) r' col = cell (sheets ! fi) r col"
  shows "set (dict_keys m) =
           first_row (column_keys (sheets ! fi) col) ` set (column_keys (sheets ! fi) col) \<and>
         dict_get m r = None \<and>
         ((fi, r, c), dst, v)
           \<notin> set (copies (final_state (merge_multiple_files sheets sel rmap path tok)))"
proof -
  let ?ks = "column_keys (sheets ! fi) col"
  let ?cols = "[(f, cname) \<leftarrow> sel. f = fi]"
  from file_row_mapping_driven[OF assms(1,2,3,4,5,6)] obtain rf rcol where
    meq: "m = spec_row_mapping (first_occurrences (column_keys (sheets ! rf) rcol)) ?ks" by metis
  have keys: "set (dict_keys m) = first_row ?ks ` set ?ks"
    unfolding meq dict_keys_def by (rule spec_row_mapping_rows)
  have nr: "r \<notin> set (dict_keys m)"
    unfolding keys using assms(7,8,9,10) by (rule duplicate_row_not_first)
  then have none: "dict_get m r = None" by (simp add: dict_get_None_iff dict_keys_def)
  have "((fi, r, c), dst, v)
           \<notin> set (copies (final_state (merge_multiple_files sheets sel rmap path tok)))"
  proof
    assume mem: "((fi, r, c), dst, v)
           \<in> set (copies (final_state (merge_multiple_files sheets sel rmap path tok)))"
    with merge_copies_cases[of sheets sel rmap path tok] obtain refs' rm n where
      r': "build_references sheets rmap [] = Inr refs'"
      and rm: "build_row_mapping sheets rmap refs' (columns_by_file sel) [] = Inr rm"
      and cp: "copies (final_state (merge_multiple_files sheets sel rmap path tok)) =
                 take n (merged_copies sheets sel rm)" by auto
    have re: "refs' = refs" using r' assms(1) by simp
    have "((fi, r, c), dst, v) \<in> set (merged_copies sheets sel rm)"
      using mem cp by (auto dest: in_set_takeD)
    from merged_copies_src[OF this] have fin: "fi \<in> set (map fst sel)"
      and rr: "r = 1 \<or> r \<in> set (map fst (dict_list rm fi))" by simp_all
    have cols: "dict_get (columns_by_file sel) fi = Some ?cols"
      using fin by (simp add: columns_by_file_get)
    from build_row_mapping_get[OF rm[unfolded re] columns_by_file_distinct, of fi] cols assms(6)
    have "dict_get rm fi = Some m" by simp
    then have "r \<in> set (dict_keys m)" using rr assms(7,8) by (simp add: dict_list_def dict_keys_def)
    then show False using nr by simp
  qed
  then show ?thesis using keys none by simp
qed

text \<open>
  Claim C10 at a file whose rows 2 and 4 both have key 2: row 4 is not mapped and its
  score 11 is never copied.
\<close>

theorem duplicate_rows_dropped_witness:
  "set (dict_keys [(2::nat, 3::nat), (3, 4)]) =
     first_row (column_keys ([file_A, file_D] ! 1) 1) ` set (column_keys ([file_A, file_D] ! 1) 1) \<and>
   dict_get [(2::nat, 3::nat), (3, 4)] 4 = None \<and>
   ((1, 4, 2), (5, 4), PyInt 11)
     \<notin> set (copies (final_state
          (merge_multiple_files [file_A, file_D] both_ids [(''ID'', 0)] ''out.xlsx'' never_cancelled)))"
proof -
  let ?sheets = "[file_A, file_D]"
  let ?rmap = "[(''ID'', 0::nat)]"
  have h1: "build_references ?sheets ?rmap [] = Inr [(''ID'', scan_keys file_A 1)]" by code_simp
  have h2: "distinct (map fst ?rmap)" by simp
  have h3: "find_ref_column ?rmap [(f, cname) \<leftarrow> both_ids. f = 1] = Some ''ID''" by code_simp
  have h4: "''ID'' \<noteq> []" by simp
  have h5: "dict_get (column_map_of (?sheets ! 1)) ''ID'' = Some 1" by code_simp
  have h6: "file_row_mapping ?sheets ?rmap [(''ID'', scan_keys file_A 1)] 1
              [(f, cname) \<leftarrow> both_ids. f = 1] = Inr [(2, 3), (3, 4)]" by code_simp
  have h7: "(2::nat) \<le> 2" by simp
  have h8: "(2::nat) < 4" by simp
  have h9: "4 \<le> max_row (?sheets ! 1)" by code_simp
  have h10: "cell (?sheets ! 1) 2 1 = cell (?sheets ! 1) 4 1" by code_simp
  from duplicate_rows_dropped[OF h1 h2 h3 h4 h5 h6 h7 h8 h9 h10] show ?thesis .
qed

subsection \<open>Claim C2: the worked scenario\<close>

text \<open>
  Claim C2 as stated fails: in the Score column the code writes 90, 85 and 77 to rows
  2, 3 and 4, where the claim expects blank, 90 and 85. File B's only selected column,
  Score, is not a reference-map name, so B is mapped row by row (Step 4a).
\<close>

theorem scenario_counterexample:
  "saved_rows scenario 4 3 ! 1 ! 2 = Some (PyInt 90) \<and>
   saved_rows scenario 4 3 ! 2 ! 2 = Some (PyInt 85) \<and>
   saved_rows scenario 4 3 ! 3 ! 2 = Some (PyInt 77)"
  by code_simp

text \<open>
  Claim C2, amended: the merge returns the output path and saves the header
  \<open>ID, Name, Score\<close> and the rows \<open>1, Alice, 90\<close>, \<open>2, Bob, 85\<close>, \<open>3, Carol, 77\<close>;
  row 5 is empty.
\<close>

theorem scenario_amended:
  "outcome scenario = Inr ''out.xlsx'' \<and>
   saved_rows scenario 5 3 =
     [[Some (PyStr ''ID''), Some (PyStr ''Name''), Some (PyStr ''Score'')],
      [Some (PyInt 1), Some (PyStr ''Alice''), Some (PyInt 90)],
      [Some (PyInt 2), Some (PyStr ''Bob''), Some (PyInt 85)],
      [Some (PyInt 3), Some (PyStr ''Carol''), Some (PyInt 77)],
      [None, None, None]]"
  by code_simp

subsection \<open>Claim C7: closing the source workbooks\<close>

text \<open>
  Claim C7 as stated fails. The loop \<open>for wb in source_workbooks: wb.close()\<close> stands
  at the end of the \<open>try\<close> body; the \<open>except\<close> clause logs and re-raises, and there
  is no \<open>finally\<close>. A merge that is cancelled, and a merge that fails with
  \<open>KeyError\<close> (the reference file has no Score column), both end without
  \<open>close()\<close> having been called on either source workbook; the successful run calls
  it on both.
\<close>

theorem merge_close_counterexample:
  "outcome (merge_multiple_files [file_A, file_B] [(0, ''ID''), (0, ''Name''), (1, ''Score'')]
      [(''ID'', 0)] ''out.xlsx'' always_cancelled) = Inl TaskCancelledException \<and>
   unclosed_workbooks (merge_multiple_files [file_A, file_B] [(0, ''ID''), (0, ''Name''), (1, ''Score'')]
      [(''ID'', 0)] ''out.xlsx'' always_cancelled) = [0, 1] \<and>
   outcome (merge_multiple_files [file_A, file_B] [(0, ''ID''), (1, ''Score'')]
      [(''Score'', 0)] ''out.xlsx'' never_cancelled) = Inl KeyError \<and>
   unclosed_workbooks (merge_multiple_files [file_A, file_B] [(0, ''ID''), (1, ''Score'')]
      [(''Score'', 0)] ''out.xlsx'' never_cancelled) = [0, 1] \<and>
   unclosed_workbooks scenario = []"
  by code_simp

text \<open>
  Claim C7, amended: \<open>close()\<close> is called on the source workbooks on the success
  path only. A merge that returns the output path has called it on every source workbook;
  a merge that raises, from a failure or from cancellation, has called it on none.
\<close>

theorem merge_close_on_success_only:
  "unclosed_workbooks (merge_multiple_files sheets sel rmap path tok) =
     (case outcome (merge_multiple_files sheets sel rmap path tok) of
        Inl e \<Rightarrow> [0..<length sheets]
      | Inr p \<Rightarrow> [])"
  by (simp add: merge_multiple_files_def Let_def split: sum.splits prod.splits)

lemma emit_exactI_run:
  "\<forall>i<length cs. \<not> tok (polls st + i) \<Longrightarrow> r = Inr st' \<Longrightarrow> copies st' = copies st @ cs \<Longrightarrow>
   polls st' = polls st + length cs \<Longrightarrow> output_col_idx st' = output_col_idx st + k \<Longrightarrow>
   emit_exact tok st cs k r"
  by (simp add: emit_exact_def)

lemma emit_exactI_cancel:
  "r = Inl (TaskCancelledException, st') \<Longrightarrow> j < length cs \<Longrightarrow> tok (polls st + j) \<Longrightarrow>
   \<forall>i<j. \<not> tok (polls st + i) \<Longrightarrow> copies st' = copies st @ take j cs \<Longrightarrow>
   emit_exact tok st cs k r"
proof -
  assume a: "r = Inl (TaskCancelledException, st')" "j < length cs" "tok (polls st + j)"
    "\<forall>i<j. \<not> tok (polls st + i)" "copies st' = copies st @ take j cs"
  then have "\<not> (\<forall>i<length cs. \<not> tok (polls st + i))" by blast
  then show ?thesis unfolding emit_exact_def using a by (simp only: if_False) blast
qed

lemma emit_exact_runD:
  assumes "emit_exact tok st cs k r" "\<forall>i<length cs. \<not> tok (polls st + i)"
  obtains st' where "r = Inr st'" "copies st' = copies st @ cs" "polls st' = polls st + length cs"
    "output_col_idx st' = output_col_idx st + k"
  using assms unfolding emit_exact_def by auto

lemma emit_exact_cancelD:
  assumes "emit_exact tok st cs k r" "\<not> (\<forall>i<length cs. \<not> tok (polls st + i))"
  obtains st' j where "r = Inl (TaskCancelledException, st')" "j < length cs" "tok (polls st + j)"
    "\<forall>i<j. \<not> tok (polls st + i)" "copies st' = copies st @ take j cs"
proof -
  from assms have "\<exists>st' j. r = Inl (TaskCancelledException, st') \<and> j < length cs \<and> tok (polls st + j) \<and>
             (\<forall>i<j. \<not> tok (polls st + i)) \<and> copies st' = copies st @ take j cs"
    unfolding emit_exact_def by (simp only: if_False)
  then show ?thesis using that by blast
qed

lemma copy_rows_exact:
  "emit_exact tok st (column_cells sh src (output_col_idx st) rows) 0
     (copy_rows tok sh src n_selected rows st)"
proof (induction rows arbitrary: st)
  case Nil
  show ?case by (rule emit_exactI_run[where st' = st]) (simp_all add: column_cells_def)
next
  case (Cons row rows)
  let ?cs = "column_cells sh src (output_col_idx st) (row # rows)"
  let ?r = "copy_rows tok sh src n_selected (row # rows) st"
  show ?case
  proof (cases "tok (polls st)")
    case True
    have r: "?r = Inl (TaskCancelledException, st\<lparr>polls := Suc (polls st)\<rparr>)" using True by simp
    show ?thesis by (rule emit_exactI_cancel[OF r, where j = 0]) (use True in \<open>simp_all add: column_cells_def\<close>)
  next
    case nt: False
    let ?st1 = "st\<lparr>polls := Suc (polls st),
                   copies := copies st @ [((0, row, src), (row, output_col_idx st), cell sh row src)]\<rparr>"
    let ?st2 = "if row mod 100 = 0
                then ?st1\<lparr>progress := progress ?st1 @ [(row * output_col_idx ?st1, max_row sh * n_selected)]\<rparr>
                else ?st1"
    have step: "?r = copy_rows tok sh src n_selected rows ?st2" using nt by (simp add: Let_def)
    have f: "polls ?st2 = Suc (polls st)" "output_col_idx ?st2 = output_col_idx st"
      "copies ?st2 = copies st @ [((0, row, src), (row, output_col_idx st), cell sh row src)]"
      by simp_all
    have IH: "emit_exact tok ?st2 (column_cells sh src (output_col_idx st) rows) 0
                (copy_rows tok sh src n_selected rows ?st2)"
      using Cons.IH[of ?st2] unfolding f(2) .
    let ?rest = "column_cells sh src (output_col_idx st) rows"
    have cs: "?cs = ((0, row, src), (row, output_col_idx st), cell sh row src) # ?rest"
      by (simp add: column_cells_def)
    show ?thesis
    proof (cases "\<forall>i<length ?rest. \<not> tok (polls ?st2 + i)")
      case True
      from emit_exact_runD[OF IH True] obtain st' where
        "copy_rows tok sh src n_selected rows ?st2 = Inr st'" "copies st' = copies ?st2 @ ?rest"
        "polls st' = polls ?st2 + length ?rest" "output_col_idx st' = output_col_idx ?st2 + 0" by blast
      moreover have "\<forall>i<length ?cs. \<not> tok (polls st + i)"
        unfolding cs using True nt f(1) by (simp add: all_less_Suc_shift)
      ultimately show ?thesis unfolding step
        by (intro emit_exactI_run[where st' = st']) (simp_all add: f cs)
    next
      case False
      from emit_exact_cancelD[OF IH False] obtain st' j where
        c: "copy_rows tok sh src n_selected rows ?st2 = Inl (TaskCancelledException, st')"
        "j < length ?rest" "tok (polls ?st2 + j)" "\<forall>i<j. \<not> tok (polls ?st2 + i)"
        "copies st' = copies ?st2 @ take j ?rest" by blast
      have "\<forall>i<Suc j. \<not> tok (polls st + i)" using c(4) nt f(1) by (simp add: all_less_Suc_shift)
      moreover have "tok (polls st + Suc j)" using c(3) f(1) by simp
      moreover have "Suc j < length ?cs" using c(2) by (simp add: cs)
      moreover have "copies st' = copies st @ take (Suc j) ?cs" using c(5) by (simp add: f cs)
      ultimately show ?thesis unfolding step using c(1) by (intro emit_exactI_cancel[where j = "Suc j"])
    qed
  qed
qed

lemma extract_loop_exact:
  "emit_exact tok st (extract_copies sh cm (output_col_idx st) names)
     (length (resolved_names cm names)) (extract_loop tok sh cm n_selected names st)"
proof (induction names arbitrary: st)
  case Nil
  show ?case by (rule emit_exactI_run[where st' = st]) (simp_all add: resolved_names_def)
next
  case (Cons nm names)
  let ?r = "extract_loop tok sh cm n_selected (nm # names) st"
  show ?case
  proof (cases "dict_get cm nm")
    case None
    then show ?thesis using Cons.IH[of st] by (simp add: resolved_names_def dict_has_def)
  next
    case (Some src)
    let ?c1 = "column_cells sh src (output_col_idx st) [1..<Suc (max_row sh)]"
    let ?c2 = "extract_copies sh cm (Suc (output_col_idx st)) names"
    have cs: "extract_copies sh cm (output_col_idx st) (nm # names) = ?c1 @ ?c2" using Some by simp
    have k: "length (resolved_names cm (nm # names)) = Suc (length (resolved_names cm names))"
      using Some by (simp add: resolved_names_def dict_has_def)
    have rows: "emit_exact tok st ?c1 0 (copy_rows tok sh src n_selected [1..<Suc (max_row sh)] st)"
      by (rule copy_rows_exact)
    show ?thesis
    proof (cases "\<forall>i<length ?c1. \<not> tok (polls st + i)")
      case False
      from emit_exact_cancelD[OF rows False] obtain st' j where
        c: "copy_rows tok sh src n_selected [1..<Suc (max_row sh)] st = Inl (TaskCancelledException, st')"
        "j < length ?c1" "tok (polls st + j)" "\<forall>i<j. \<not> tok (polls st + i)"
        "copies st' = copies st @ take j ?c1" by blast
      have r: "?r = Inl (TaskCancelledException, st')" using Some c(1) by simp
      show ?thesis unfolding cs k
        by (rule emit_exactI_cancel[OF r, where j = j]) (use c in simp_all)
    next
      case True
      from emit_exact_runD[OF rows True] obtain st1 where
        s1: "copy_rows tok sh src n_selected [1..<Suc (max_row sh)] st = Inr st1"
        "copies st1 = copies st @ ?c1" "polls st1 = polls st + length ?c1"
        "output_col_idx st1 = output_col_idx st + 0" by blast
      let ?st2 = "st1\<lparr>output_col_idx := Suc (output_col_idx st1)\<rparr>"
      have step: "?r = extract_loop tok sh cm n_selected names ?st2" using Some s1(1) by simp
      have IH: "emit_exact tok ?st2 ?c2 (length (resolved_names cm names))
                  (extract_loop tok sh cm n_selected names ?st2)"
        using Cons.IH[of ?st2] s1(4) by simp
      show ?thesis
      proof (cases "\<forall>i<length ?c2. \<not> tok (polls ?st2 + i)")
        case t2: True
        from emit_exact_runD[OF IH t2] obtain st' where
          "extract_loop tok sh cm n_selected names ?st2 = Inr st'" "copies st' = copies ?st2 @ ?c2"
          "polls st' = polls ?st2 + length ?c2"
          "output_col_idx st' = output_col_idx ?st2 + length (resolved_names cm names)" by blast
        moreover have "\<forall>i<length (?c1 @ ?c2). \<not> tok (polls st + i)"
          using True t2 s1(3) by (simp add: all_less_add_split add.assoc)
        ultimately show ?thesis unfolding step cs k
          by (intro emit_exactI_run[where st' = st']) (simp_all add: s1)
      next
        case f2: False
        from emit_exact_cancelD[OF IH f2] obtain st' j where
          c: "extract_loop tok sh cm n_selected names ?st2 = Inl (TaskCancelledException, st')"
          "j < length ?c2" "tok (polls ?st2 + j)" "\<forall>i<j. \<not> tok (polls ?st2 + i)"
          "copies st' = copies ?st2 @ take j ?c2" by blast
        have "\<forall>i<length ?c1 + j. \<not> tok (polls st + i)"
          using True c(4) s1(3) by (simp add: all_less_add_split add.assoc)
        moreover have "tok (polls st + (length ?c1 + j))" using c(3) s1(3) by (simp add: add.assoc)
        moreover have "copies st' = copies st @ take (length ?c1 + j) (?c1 @ ?c2)"
          using c(5) s1(2) by simp
        ultimately show ?thesis unfolding step cs k using c(1,2)
          by (intro emit_exactI_cancel[where j = "length ?c1 + j"]) simp_all
      qed
    qed
  qed
qed

lemma extract_emit:
  "emit_exact tok initial_state (extracted_copies sh selected)
     (length (resolved_names (extract_column_map sh selected) selected))
     (extract_loop tok sh (extract_column_map sh selected) (length selected) selected initial_state)"
  using extract_loop_exact[of tok initial_state sh "extract_column_map sh selected" selected "length selected"]
  by (simp add: extracted_copies_def initial_state_def)

lemma extract_run:
  assumes "\<forall>i<extract_polls sh selected. \<not> tok i"
  shows "outcome (extract_columns sh selected path tok) = Inr path"
    and "saved_file (extract_columns sh selected path tok) =
           Some (sheet_of_copies (extracted_copies sh selected))"
    and "unclosed_workbooks (extract_columns sh selected path tok) = []"
    and "copies (final_state (extract_columns sh selected path tok)) = extracted_copies sh selected"
proof -
  have t: "\<forall>i<length (extracted_copies sh selected). \<not> tok (polls initial_state + i)"
    using assms by (simp add: initial_state_def extract_polls_def)
  from emit_exact_runD[OF extract_emit t] obtain st' where
    r: "extract_loop tok sh (extract_column_map sh selected) (length selected) selected initial_state = Inr st'"
    and c: "copies st' = copies initial_state @ extracted_copies sh selected" by blast
  have c': "copies st' = extracted_copies sh selected" using c by (simp add: initial_state_def)
  show "outcome (extract_columns sh selected path tok) = Inr path"
    and "saved_file (extract_columns sh selected path tok) =
           Some (sheet_of_copies (extracted_copies sh selected))"
    and "unclosed_workbooks (extract_columns sh selected path tok) = []"
    and "copies (final_state (extract_columns sh selected path tok)) = extracted_copies sh selected"
    using r c' by (simp_all add: extract_columns_def)
qed

lemma extract_cancel:
  assumes "j < extract_polls sh selected" "tok j" "\<forall>i<j. \<not> tok i"
  shows "outcome (extract_columns sh selected path tok) = Inl TaskCancelledException"
    and "saved_file (extract_columns sh selected path tok) = None"
    and "unclosed_workbooks (extract_columns sh selected path tok) = [0]"
    and "copies (final_state (extract_columns sh selected path tok)) =
           take j (extracted_copies sh selected)"
proof -
  have t: "\<not> (\<forall>i<length (extracted_copies sh selected). \<not> tok (polls initial_state + i))"
    using assms(1,2) by (auto simp: initial_state_def extract_polls_def)
  from emit_exact_cancelD[OF extract_emit t] obtain st' j' where
    r: "extract_loop tok sh (extract_column_map sh selected) (length selected) selected initial_state =
          Inl (TaskCancelledException, st')"
    and j': "tok (polls initial_state + j')" "\<forall>i<j'. \<not> tok (polls initial_state + i)"
    and c: "copies st' = copies initial_state @ take j' (extracted_copies sh selected)" by blast
  have "j = j'" using first_true_unique[OF assms(2,3)] j' by (simp add: initial_state_def)
  then have c': "copies st' = take j (extracted_copies sh selected)"
    using c by (simp add: initial_state_def)
  show "outcome (extract_columns sh selected path tok) = Inl TaskCancelledException"
    and "saved_file (extract_columns sh selected path tok) = None"
    and "unclosed_workbooks (extract_columns sh selected path tok) = [0]"
    and "copies (final_state (extract_columns sh selected path tok)) =
           take j (extracted_copies sh selected)"
    using r c' by (simp_all add: extract_columns_def)
qed

lemma sheet_of_copies_append:
  "sheet_of_copies (xs @ ys) pos =
     (case sheet_of_copies ys pos of Some w \<Rightarrow> Some w | None \<Rightarrow> sheet_of_copies xs pos)"
  by (induction xs) (auto split: option.splits)

lemma sheet_of_column_cells:
  "sheet_of_copies (column_cells sh src oc rows) (r, c) =
     (if c = oc \<and> r \<in> set rows then Some (cell sh r src) else None)"
  by (induction rows) (auto simp: column_cells_def split: option.splits)

lemma extract_copies_sheet:
  "sheet_of_copies (extract_copies sh cm oc names) (r, c) =
     (if oc \<le> c \<and> c < oc + length (resolved_names cm names) \<and> 1 \<le> r \<and> r \<le> max_row sh
      then Some (cell sh r (column_of cm (resolved_names cm names ! (c - oc))))
      else None)"
proof (induction names arbitrary: oc)
  case Nil
  show ?case by (simp add: resolved_names_def)
next
  case (Cons nm names)
  show ?case
  proof (cases "dict_get cm nm")
    case None
    then show ?thesis using Cons.IH[of oc] by (simp add: resolved_names_def dict_has_def)
  next
    case (Some src)
    have res: "resolved_names cm (nm # names) = nm # resolved_names cm names"
      using Some by (simp add: resolved_names_def dict_has_def)
    have rows: "r \<in> set [1..<Suc (max_row sh)] \<longleftrightarrow> 1 \<le> r \<and> r \<le> max_row sh" by auto
    show ?thesis
    proof (cases "c = oc")
      case True
      then show ?thesis
        using Some Cons.IH[of "Suc oc"]
        by (simp add: sheet_of_copies_append sheet_of_column_cells res rows column_of_def)
    next
      case False
      have "(resolved_names cm (nm # names)) ! (c - oc) = resolved_names cm names ! (c - Suc oc)"
        if "oc \<le> c"
      proof -
        have "c - oc = Suc (c - Suc oc)" using False that by simp
        then show ?thesis unfolding res by simp
      qed
      then show ?thesis
        using Some False Cons.IH[of "Suc oc"]
        by (auto simp: sheet_of_copies_append sheet_of_column_cells res)
    qed
  qed
qed

lemma extract_column_map_fold:
  "dict_get (foldl (\<lambda>column_map (col_idx, v).
              let col_name = header_name col_idx v
              in if col_name \<in> set selected then dict_set column_map col_name col_idx
                 else column_map) [] hs) n =
     (if n \<in> set selected
      then map_option fst (find (\<lambda>(c, v). header_name c v = n) (rev hs))
      else None)"
proof (induction hs rule: rev_induct)
  case Nil
  show ?case by simp
next
  case (snoc h hs)
  obtain c v where h: "h = (c, v)" by (cases h)
  show ?case using snoc.IH by (simp add: h Let_def dict_get_set)
qed

lemma column_map_of_fold:
  "dict_get (foldl (\<lambda>column_map (col_idx, v). dict_set column_map (header_name col_idx v) col_idx) [] hs) n =
     map_option fst (find (\<lambda>(c, v). header_name c v = n) (rev hs))"
proof (induction hs rule: rev_induct)
  case Nil
  show ?case by simp
next
  case (snoc h hs)
  obtain c v where h: "h = (c, v)" by (cases h)
  show ?case using snoc.IH by (simp add: h dict_get_set)
qed

lemma find_header_None:
  "find (\<lambda>(c, v). header_name c v = n) (rev (header_row sh)) = None \<longleftrightarrow> n \<notin> set (header_names sh)"
  by (auto simp: find_None_iff header_names_def)

lemma extract_column_map_has:
  "dict_has (extract_column_map sh selected) n \<longleftrightarrow> n \<in> set selected \<and> n \<in> set (header_names sh)"
  using find_header_None[of n sh]
  by (auto simp: dict_has_def extract_column_map_def extract_column_map_fold)

lemma extract_column_map_column:
  "n \<in> set selected \<Longrightarrow> column_of (extract_column_map sh selected) n = last_header_column sh n"
  by (auto simp: column_of_def extract_column_map_def extract_column_map_fold last_header_column_def
      split: option.splits)

lemma column_map_of_get:
  "dict_get (column_map_of sh) n =
     (if n \<in> set (header_names sh) then Some (last_header_column sh n) else None)"
  using find_header_None[of n sh]
  by (auto simp: column_map_of_def column_map_of_fold last_header_column_def split: option.splits)

lemma last_header_column_resolves:
  assumes "n \<in> set (header_names sh)"
  shows "1 \<le> last_header_column sh n \<and> last_header_column sh n \<le> max_column sh \<and>
         header_name (last_header_column sh n) (cell sh 1 (last_header_column sh n)) = n"
proof -
  from assms obtain c v where f: "find (\<lambda>(c, v). header_name c v = n) (rev (header_row sh)) = Some (c, v)"
    using find_header_None[of n sh] by (cases "find (\<lambda>(c, v). header_name c v = n) (rev (header_row sh))") auto
  then obtain i where "i < length (rev (header_row sh))" "rev (header_row sh) ! i = (c, v)"
    and hn: "header_name c v = n" by (auto simp: find_Some_iff)
  then have "(c, v) \<in> set (rev (header_row sh))" by (metis nth_mem)
  then have "(c, v) \<in> set (header_row sh)" by simp
  with hn show ?thesis using f by (auto simp: last_header_column_def header_row_def)
qed

lemma resolved_names_extract:
  "resolved_names (extract_column_map sh selected) selected = resolving_names sh selected"
  unfolding resolved_names_def resolving_names_def
  by (rule filter_cong) (simp_all add: extract_column_map_has)

subsection \<open>Claim C4: the extractor keeps the selection order\<close>

text \<open>
  Claim C4. An extraction that is not cancelled returns the output path whatever names
  are missing from the header, and the saved sheet has exactly one column per selected
  name that occurs in the header, in selection order and without gaps: output column
  \<open>c\<close> holds rows 1 to \<open>max_row\<close> of the source column of the \<open>c\<close>-th such name, and
  every other cell is absent. The source column of a name is the rightmost header cell
  of that name.
\<close>

theorem extract_order_preserved:
  assumes "\<forall>i<extract_polls sh selected. \<not> tok i"
  shows "outcome (extract_columns sh selected path tok) = Inr path \<and>
         (\<exists>out. saved_file (extract_columns sh selected path tok) = Some out \<and>
            (\<forall>r c. out (r, c) =
               (if 1 \<le> c \<and> c \<le> length (resolving_names sh selected) \<and> 1 \<le> r \<and> r \<le> max_row sh
                then Some (cell sh r (last_header_column sh (resolving_names sh selected ! (c - 1))))
                else None))) \<and>
         (\<forall>n\<in>set (resolving_names sh selected).
            1 \<le> last_header_column sh n \<and> last_header_column sh n \<le> max_column sh \<and>
            header_name (last_header_column sh n) (cell sh 1 (last_header_column sh n)) = n)"
proof (intro conjI)
  show "outcome (extract_columns sh selected path tok) = Inr path"
    using assms by (rule extract_run(1))
  let ?res = "resolving_names sh selected"
  let ?out = "sheet_of_copies (extracted_copies sh selected)"
  have "\<forall>r c. ?out (r, c) =
               (if 1 \<le> c \<and> c \<le> length ?res \<and> 1 \<le> r \<and> r \<le> max_row sh
                then Some (cell sh r (last_header_column sh (?res ! (c - 1))))
                else None)"
  proof (intro allI)
    fix r c
    have col: "column_of (extract_column_map sh selected) (?res ! (c - 1)) =
                 last_header_column sh (?res ! (c - 1))" if "1 \<le> c" "c \<le> length ?res"
    proof -
      have "?res ! (c - 1) \<in> set ?res" using that by (intro nth_mem) simp
      then have "?res ! (c - 1) \<in> set selected" by (simp add: resolving_names_def)
      then show ?thesis by (rule extract_column_map_column)
    qed
    have "1 \<le> c \<and> c < 1 + length ?res \<longleftrightarrow> 1 \<le> c \<and> c \<le> length ?res" by auto
    then show "?out (r, c) =
               (if 1 \<le> c \<and> c \<le> length ?res \<and> 1 \<le> r \<and> r \<le> max_row sh
                then Some (cell sh r (last_header_column sh (?res ! (c - 1))))
                else None)"
      unfolding extracted_copies_def extract_copies_sheet resolved_names_extract
      using col by auto
  qed
  then show "\<exists>out. saved_file (extract_columns sh selected path tok) = Some out \<and>
            (\<forall>r c. out (r, c) =
               (if 1 \<le> c \<and> c \<le> length ?res \<and> 1 \<le> r \<and> r \<le> max_row sh
                then Some (cell sh r (last_header_column sh (?res ! (c - 1))))
                else None))"
    using extract_run(2)[OF assms, of path] by blast
  show "\<forall>n\<in>set ?res.
            1 \<le> last_header_column sh n \<and> last_header_column sh n \<le> max_column sh \<and>
            header_name (last_header_column sh n) (cell sh 1 (last_header_column sh n)) = n"
    using last_header_column_resolves by (simp add: resolving_names_def)
qed

text \<open>
  Claim C4 at file A with the selection Name, Total, ID: Total is skipped, Name becomes
  column 1 and ID column 2.
\<close>

theorem extract_order_preserved_witness:
  "outcome (extract_columns file_A [''Name'', ''Total'', ''ID''] ''out.xlsx'' never_cancelled) =
     Inr ''out.xlsx'' \<and>
   saved_rows (extract_columns file_A [''Name'', ''Total'', ''ID''] ''out.xlsx'' never_cancelled) 5 3 =
     [[Some (PyStr ''Name''), Some (PyStr ''ID''), None],
      [Some (PyStr ''Alice''), Some (PyInt 1), None],
      [Some (PyStr ''Bob''), Some (PyInt 2), None],
      [Some (PyStr ''Carol''), Some (PyInt 3), None],
      [None, None, None]]"
proof -
  let ?sel = "[''Name'', ''Total'', ''ID'']"
  have h: "\<forall>i<extract_polls file_A ?sel. \<not> never_cancelled i" by (simp add: never_cancelled_def)
  from extract_order_preserved[OF h, of "''out.xlsx''"] obtain out where
    o: "outcome (extract_columns file_A ?sel ''out.xlsx'' never_cancelled) = Inr ''out.xlsx''"
    and s: "saved_file (extract_columns file_A ?sel ''out.xlsx'' never_cancelled) = Some out"
    and c: "\<And>r c. out (r, c) =
               (if 1 \<le> c \<and> c \<le> length (resolving_names file_A ?sel) \<and> 1 \<le> r \<and> r \<le> max_row file_A
                then Some (cell file_A r (last_header_column file_A (resolving_names file_A ?sel ! (c - 1))))
                else None)" by blast
  have v: "resolving_names file_A ?sel = [''Name'', ''ID'']" "max_row file_A = 4"
    "last_header_column file_A ''Name'' = 2" "last_header_column file_A ''ID'' = 1"
    by code_simp+
  have cells: "map (\<lambda>r. map (\<lambda>c. cell file_A r c) [2, 1]) [1, 2, 3, 4] =
    [[PyStr ''Name'', PyStr ''ID''], [PyStr ''Alice'', PyInt 1], [PyStr ''Bob'', PyInt 2],
     [PyStr ''Carol'', PyInt 3]]" by code_simp
  have u: "[1..<Suc 3] = [1, 2, 3]" "[1..<Suc 5] = [1, 2, 3, 4, 5]" by code_simp+
  have "saved_rows (extract_columns file_A ?sel ''out.xlsx'' never_cancelled) 5 3 =
          map (\<lambda>r. map (\<lambda>c. out (r, c)) [1, 2, 3]) [1, 2, 3, 4, 5]"
    unfolding saved_rows_def s u by simp
  also have "\<dots> = [[Some (PyStr ''Name''), Some (PyStr ''ID''), None],
      [Some (PyStr ''Alice''), Some (PyInt 1), None],
      [Some (PyStr ''Bob''), Some (PyInt 2), None],
      [Some (PyStr ''Carol''), Some (PyInt 3), None],
      [None, None, None]]"
    using cells by (simp add: c v)
  finally show ?thesis using o by simp
qed

subsection \<open>Claim C6: cancellation\<close>

text \<open>
  Claim C6 as stated fails. An extraction whose selection resolves to no column never
  polls the token: with the token set from the start it still returns and saves. The
  scenario's merge polls 12 times; a token set after the last poll, before the save
  step, does not stop the save either.
\<close>

theorem cancellation_counterexample:
  "outcome (extract_columns file_A [''Total''] ''out.xlsx'' always_cancelled) = Inr ''out.xlsx'' \<and>
   saved_rows (extract_columns file_A [''Total''] ''out.xlsx'' always_cancelled) 1 1 = [[None]] \<and>
   merge_polls [file_A, file_B] [(0, ''ID''), (0, ''Name''), (1, ''Score'')]
     [(0, direct_mapping 4), (1, direct_mapping 4)] = 12 \<and>
   cancelled_from 12 12 \<and>
   outcome (merge_multiple_files [file_A, file_B] [(0, ''ID''), (0, ''Name''), (1, ''Score'')]
      [(''ID'', 0)] ''out.xlsx'' (cancelled_from 12)) = Inr ''out.xlsx'' \<and>
   saved_rows (merge_multiple_files [file_A, file_B] [(0, ''ID''), (0, ''Name''), (1, ''Score'')]
      [(''ID'', 0)] ''out.xlsx'' (cancelled_from 12)) 2 3 =
     [[Some (PyStr ''ID''), Some (PyStr ''Name''), Some (PyStr ''Score'')],
      [Some (PyInt 1), Some (PyStr ''Alice''), Some (PyInt 90)]]"
  by code_simp

text \<open>
  Claim C6, amended: if a poll of the operation reads the token set, \<open>j\<close> being the first
  such poll, the operation raises \<open>TaskCancelledException\<close>, nothing is saved, and
  exactly the copies that precede poll \<open>j\<close> have been made: the row (or header cell)
  guarded by poll \<open>j\<close> is not written. For the merge the statement is about runs whose
  Steps 2 to 4 raised no \<open>KeyError\<close>.
\<close>

theorem cancellation_at_checkpoint:
  "(j < extract_polls sh selected \<and> tok j \<and> (\<forall>i<j. \<not> tok i) \<longrightarrow>
      outcome (extract_columns sh selected path tok) = Inl TaskCancelledException \<and>
      saved_file (extract_columns sh selected path tok) = None \<and>
      copies (final_state (extract_columns sh selected path tok)) =
        take j (extracted_copies sh selected)) \<and>
   (build_references sheets rmap [] = Inr refs \<and>
    build_row_mapping sheets rmap refs (columns_by_file sel) [] = Inr rm \<and>
    j < merge_polls sheets sel rm \<and> tok j \<and> (\<forall>i<j. \<not> tok i) \<longrightarrow>
      outcome (merge_multiple_files sheets sel rmap path tok) = Inl TaskCancelledException \<and>
      saved_file (merge_multiple_files sheets sel rmap path tok) = None \<and>
      copies (final_state (merge_multiple_files sheets sel rmap path tok)) =
        concat (take j (merge_steps sheets sel rm)))"
proof (intro conjI impI)
  assume a: "j < extract_polls sh selected \<and> tok j \<and> (\<forall>i<j. \<not> tok i)"
  then have a1: "j < extract_polls sh selected" and a2: "tok j" and a3: "\<forall>i<j. \<not> tok i" by simp_all
  show "outcome (extract_columns sh selected path tok) = Inl TaskCancelledException"
    and "saved_file (extract_columns sh selected path tok) = None"
    and "copies (final_state (extract_columns sh selected path tok)) =
        take j (extracted_copies sh selected)"
    using extract_cancel[OF a1 a2 a3, of path] by simp_all
next
  assume b: "build_references sheets rmap [] = Inr refs \<and>
    build_row_mapping sheets rmap refs (columns_by_file sel) [] = Inr rm \<and>
    j < merge_polls sheets sel rm \<and> tok j \<and> (\<forall>i<j. \<not> tok i)"
  then have b1: "build_references sheets rmap [] = Inr refs"
    and b2: "build_row_mapping sheets rmap refs (columns_by_file sel) [] = Inr rm"
    and b3: "\<not> (\<forall>i<merge_polls sheets sel rm. \<not> tok i)"
    and b4: "j < merge_polls sheets sel rm" "tok j" "\<forall>i<j. \<not> tok i" by auto
  show "outcome (merge_multiple_files sheets sel rmap path tok) = Inl TaskCancelledException"
    and "saved_file (merge_multiple_files sheets sel rmap path tok) = None"
    using merge_cancel(1,2)[OF b1 b2 b3, of path] by simp_all
  show "copies (final_state (merge_multiple_files sheets sel rmap path tok)) =
        concat (take j (merge_steps sheets sel rm))"
    using b1 b2 b4 by (rule merge_cancel_at)
qed

text \<open>
  Claim C6, amended, with a token set at poll 5: the extractor has copied the four
  cells of Name and the header of ID, the merge the four cells of ID and the header of
  Name; neither saves.
\<close>

theorem cancellation_at_checkpoint_witness:
  "outcome (extract_columns file_A [''Name'', ''ID''] ''out.xlsx'' (cancelled_from 5)) =
     Inl TaskCancelledException \<and>
   saved_file (extract_columns file_A [''Name'', ''ID''] ''out.xlsx'' (cancelled_from 5)) = None \<and>
   copies (final_state (extract_columns file_A [''Name'', ''ID''] ''out.xlsx'' (cancelled_from 5))) =
     [((0, 1, 2), (1, 1), PyStr ''Name''), ((0, 2, 2), (2, 1), PyStr ''Alice''),
      ((0, 3, 2), (3, 1), PyStr ''Bob''), ((0, 4, 2), (4, 1), PyStr ''Carol''),
      ((0, 1, 1), (1, 2), PyStr ''ID'')] \<and>
   outcome (merge_multiple_files [file_A, file_B] both_ids [(''ID'', 0)] ''out.xlsx'' (cancelled_from 5)) =
     Inl TaskCancelledException \<and>
   saved_file (merge_multiple_files [file_A, file_B] both_ids [(''ID'', 0)] ''out.xlsx'' (cancelled_from 5)) =
     None \<and>
   copies (final_state
     (merge_multiple_files [file_A, file_B] both_ids [(''ID'', 0)] ''out.xlsx'' (cancelled_from 5))) =
     [((0, 1, 1), (1, 1), PyStr ''ID''), ((0, 2, 1), (2, 1), PyInt 1),
      ((0, 3, 1), (3, 1), PyInt 2), ((0, 4, 1), (4, 1), PyInt 3),
      ((0, 1, 2), (1, 2), PyStr ''Name'')]"
proof -
  let ?sel = "[''Name'', ''ID'']"
  let ?sheets = "[file_A, file_B]"
  let ?rmap = "[(''ID'', 0::nat)]"
  let ?refs = "[(''ID'', scan_keys file_A 1)]"
  let ?rm = "[(0::nat, [(2::nat, 2::nat), (3, 3), (4, 4)]), (1, [(2, 3), (3, 4), (4, 5)])]"
  have e1: "5 < extract_polls file_A ?sel" by code_simp
  have e2: "cancelled_from 5 5" by (simp add: cancelled_from_def)
  have e3: "\<forall>i<5. \<not> cancelled_from 5 i" by (simp add: cancelled_from_def)
  have m1: "build_references ?sheets ?rmap [] = Inr ?refs" by code_simp
  have m2: "build_row_mapping ?sheets ?rmap ?refs (columns_by_file both_ids) [] = Inr ?rm" by code_simp
  have m3: "5 < merge_polls ?sheets both_ids ?rm" by code_simp
  have v: "take 5 (extracted_copies file_A ?sel) =
     [((0, 1, 2), (1, 1), PyStr ''Name''), ((0, 2, 2), (2, 1), PyStr ''Alice''),
      ((0, 3, 2), (3, 1), PyStr ''Bob''), ((0, 4, 2), (4, 1), PyStr ''Carol''),
      ((0, 1, 1), (1, 2), PyStr ''ID'')]" by code_simp
  have w: "concat (take 5 (merge_steps ?sheets both_ids ?rm)) =
     [((0, 1, 1), (1, 1), PyStr ''ID''), ((0, 2, 1), (2, 1), PyInt 1),
      ((0, 3, 1), (3, 1), PyInt 2), ((0, 4, 1), (4, 1), PyInt 3),
      ((0, 1, 2), (1, 2), PyStr ''Name'')]" by code_simp
  from cancellation_at_checkpoint[of 5 file_A ?sel "cancelled_from 5" "''out.xlsx''" ?sheets ?rmap ?refs
      both_ids ?rm] e1 e2 e3 m1 m2 m3
  show ?thesis unfolding v w by simp
qed

lemma str_nat_nonempty: "str_nat n \<noteq> []"
  by (subst str_nat.simps) simp

lemma header_name_nonempty: "v \<noteq> PyStr [] \<Longrightarrow> header_name c v \<noteq> []"
  by (cases v) (auto simp: header_name_def str_int_def str_nat_nonempty column_prefix_def)

subsection \<open>Claim C5: synthetic header names\<close>

text \<open>
  Claim C5 as stated fails: the blank second header cell gets the name made of the
  character U+5217 and the digit 2, not \<open>Column2\<close>.
\<close>

theorem header_synthesis_counterexample:
  "map name (load_columns blank_header 0) = [''ID'', [CHR 0xE5, CHR 0x88, CHR 0x97, CHR ''2'']] \<and>
   [CHR 0xE5, CHR 0x88, CHR 0x97, CHR ''2''] \<noteq> ''Column2''"
  by code_simp

text \<open>
  Claim C5, amended: a blank header cell at position \<open>i\<close> gets the name U+5217 followed
  by the decimal digits of \<open>i\<close> in the column catalogue; that name is not empty and
  resolves in the column maps of the merge and (when selected) of the extractor. Every
  discovered name is non-empty provided no header cell holds the empty string.
\<close>

theorem header_synthesis:
  "(0 < max_row sh \<and> 1 \<le> i \<and> i \<le> max_column sh \<and> cell sh 1 i = PyNone \<longrightarrow>
      name (load_columns sh fi ! (i - 1)) = column_prefix @ str_nat i \<and>
      index (load_columns sh fi ! (i - 1)) = i \<and>
      column_prefix @ str_nat i \<noteq> [] \<and>
      dict_has (column_map_of sh) (column_prefix @ str_nat i) \<and>
      (column_prefix @ str_nat i \<in> set selected \<longrightarrow>
         dict_has (extract_column_map sh selected) (column_prefix @ str_nat i))) \<and>
   ((\<forall>c. cell sh 1 c \<noteq> PyStr []) \<longrightarrow> (\<forall>col\<in>set (load_columns sh fi). name col \<noteq> []))"
proof (intro conjI impI)
  assume a: "0 < max_row sh \<and> 1 \<le> i \<and> i \<le> max_column sh \<and> cell sh 1 i = PyNone"
  then have i: "i - 1 < length [1..<Suc (max_column sh)]" by (auto simp del: upt_Suc)
  have nth: "[1..<Suc (max_column sh)] ! (i - 1) = i" using a by (auto simp del: upt_Suc)
  have hr: "header_row sh ! (i - 1) = (i, PyNone)"
    using a i nth unfolding header_row_def by (simp del: upt_Suc)
  have len: "i - 1 < length (header_row sh)" using i by (simp add: header_row_def del: upt_Suc)
  show "name (load_columns sh fi ! (i - 1)) = column_prefix @ str_nat i"
    and "index (load_columns sh fi ! (i - 1)) = i"
    using a hr len by (simp_all add: load_columns_def header_name_def)
  show "column_prefix @ str_nat i \<noteq> []" by (simp add: str_nat_nonempty)
  have "header_name i PyNone \<in> set (header_names sh)"
    unfolding header_names_def using hr len by (metis (mono_tags, lifting) case_prod_conv nth_map nth_mem length_map)
  then have hn: "column_prefix @ str_nat i \<in> set (header_names sh)" by (simp add: header_name_def)
  then show "dict_has (column_map_of sh) (column_prefix @ str_nat i)"
    by (simp add: dict_has_def column_map_of_get)
  show "dict_has (extract_column_map sh selected) (column_prefix @ str_nat i)"
    if "column_prefix @ str_nat i \<in> set selected"
    using that hn by (simp add: extract_column_map_has)
next
  assume b: "\<forall>c. cell sh 1 c \<noteq> PyStr []"
  show "\<forall>col\<in>set (load_columns sh fi). name col \<noteq> []"
    using b by (auto simp: load_columns_def header_row_def header_name_nonempty)
qed

text \<open>
  Claim C5, amended, at the sheet with the blank second header cell.
\<close>

theorem header_synthesis_witness:
  "name (load_columns blank_header 7 ! 1) = [CHR 0xE5, CHR 0x88, CHR 0x97, CHR ''2''] \<and>
   index (load_columns blank_header 7 ! 1) = 2 \<and>
   dict_has (column_map_of blank_header) [CHR 0xE5, CHR 0x88, CHR 0x97, CHR ''2''] \<and>
   dict_has (extract_column_map blank_header [[CHR 0xE5, CHR 0x88, CHR 0x97, CHR ''2'']])
     [CHR 0xE5, CHR 0x88, CHR 0x97, CHR ''2''] \<and>
   name (load_columns blank_header 7 ! 0) \<noteq> []"
proof -
  have h: "0 < max_row blank_header \<and> 1 \<le> (2::nat) \<and> 2 \<le> max_column blank_header \<and>
           cell blank_header 1 2 = PyNone" by code_simp
  have h2: "\<forall>c. cell blank_header 1 c \<noteq> PyStr []"
    by (simp add: blank_header_def sheet_of_rows_def nth_Cons')
  have v: "column_prefix @ str_nat 2 = [CHR 0xE5, CHR 0x88, CHR 0x97, CHR ''2'']" by code_simp
  have l: "load_columns blank_header 7 ! 0 \<in> set (load_columns blank_header 7)" by code_simp
  from header_synthesis[of blank_header 2 7 "[[CHR 0xE5, CHR 0x88, CHR 0x97, CHR ''2'']]"] h h2 l
  show ?thesis unfolding v by simp
qed

end
